theory Spec2Isabelle
  imports Main
begin

section \<open>The parallel prime counter of primes.c\<close>

text \<open>
  The program counts the primes below \<open>N\<close> with \<open>THREAD_COUNT\<close> POSIX threads.  The two
  macros (\<open>N = 1000000\<close>, \<open>THREAD_COUNT = 8\<close> in the source) are arguments \<open>N\<close> and \<open>T\<close> of
  every function below, so that statements about other bounds and thread counts can be
  made; \<open>N_MACRO\<close> and \<open>THREAD_COUNT\<close> are the values of the source.
\<close>

definition N_MACRO :: int where
  "N_MACRO = 1000000"

definition THREAD_COUNT :: int where
  "THREAD_COUNT = 8"

subsection \<open>C integers\<close>

text \<open>
  The variables of the program are C \<open>int\<close>s (32 bits).  Signed overflow is undefined
  behaviour in C: an addition whose mathematical result leaves the range of \<open>int\<close> has no
  value here but an error.  Division and remainder truncate towards zero.
\<close>

definition INT_MAX :: int where
  "INT_MAX = 2147483647"

definition INT_MIN :: int where
  "INT_MIN = - 2147483648"

datatype error = SignedOverflow | OutOfBounds | InvalidThread

definition add_int :: "int \<Rightarrow> int \<Rightarrow> error + int" where
  "add_int a b =
     (if INT_MIN \<le> a + b \<and> a + b \<le> INT_MAX then Inr (a + b) else Inl SignedOverflow)"

definition c_div :: "int \<Rightarrow> int \<Rightarrow> int" where
  "c_div a b = sgn a * sgn b * (\<bar>a\<bar> div \<bar>b\<bar>)"

definition c_mod :: "int \<Rightarrow> int \<Rightarrow> int" where
  "c_mod a b = a - b * c_div a b"

subsection \<open>The primality test (lines 16 to 24)\<close>

text \<open>
  \<^verbatim>\<open>for (j = 2; j <= i/2; j++) { if (i % j == 0) { flag = 1; break; } }\<close>
  The function returns the flag together with the number of times the loop body ran
  (a ghost counter \<open>n\<close>, which the C code does not have).  \<open>j++\<close> cannot overflow:
  the body runs only while \<open>j \<le> i/2\<close>.
\<close>

function for_loop :: "int \<Rightarrow> int \<Rightarrow> nat \<Rightarrow> int \<times> nat" where
  "for_loop i j n =
     (if j \<le> c_div i 2
      then (if c_mod i j = 0 then (1, Suc n) else for_loop i (j + 1) (Suc n))
      else (0, n))"
  by pat_completeness auto
termination
  by (relation "measure (\<lambda>(i, j, n). nat (c_div i 2 + 1 - j))") auto

declare for_loop.simps [simp del]

text \<open>\<^verbatim>\<open>flag = 0; for (j = 2; ...) ...\<close>\<close>

definition trial_division :: "int \<Rightarrow> int \<times> nat" where
  "trial_division v = for_loop v 2 0"

text \<open>The test of line 24: \<^verbatim>\<open>flag == 0 && i > 1\<close>.\<close>

definition isPrime :: "int \<Rightarrow> bool" where
  "isPrime v = (fst (trial_division v) = 0 \<and> v > 1)"

subsection \<open>The worker (\<open>calculate_primes\<close>, lines 12 to 30)\<close>

text \<open>
  The locals of one activation of \<open>calculate_primes\<close>: \<open>idx\<close> is the variable \<open>i\<close>.
  \<open>visited\<close> is a ghost field: the values of \<open>i\<close> on which the loop body ran, oldest
  first.  \<open>status\<close> says whether the activation is still in its loop, has returned, or
  has run into undefined behaviour; a thread in the last state takes no further step.
\<close>

datatype status = Running | Returned | UB error

record thread =
  idx :: int
  thread_number :: int
  visited :: "int list"
  status :: status

text \<open>\<^verbatim>\<open>prime_count[thread_number]++\<close> on the global array \<open>prime_count\<close>.\<close>

definition increment :: "int list \<Rightarrow> int \<Rightarrow> error + int list" where
  "increment pc k =
     (if 0 \<le> k \<and> k < int (length pc)
      then (case add_int (pc ! nat k) 1 of
              Inl e \<Rightarrow> Inl e
            | Inr v \<Rightarrow> Inr (pc[nat k := v]))
      else Inl OutOfBounds)"

text \<open>
  One run of the body of the \<open>while\<close> loop (lines 16 to 27) on the locals \<open>t\<close> and the
  global array \<open>pc\<close>: the primality test, the increment of the thread's own counter,
  \<^verbatim>\<open>i += THREAD_COUNT\<close>.
\<close>

definition loop_body :: "int \<Rightarrow> thread \<times> int list \<Rightarrow> thread \<times> int list" where
  "loop_body T c =
     (let t = fst c; pc = snd c; t1 = t\<lparr>visited := visited t @ [idx t]\<rparr> in
      case (if isPrime (idx t) then increment pc (thread_number t) else Inr pc) of
        Inl e \<Rightarrow> (t1\<lparr>status := UB e\<rparr>, pc)
      | Inr pc' \<Rightarrow>
          (case add_int (idx t) T of
             Inl e \<Rightarrow> (t1\<lparr>status := UB e\<rparr>, pc')
           | Inr v \<Rightarrow> (t1\<lparr>idx := v\<rparr>, pc')))"

text \<open>
  \<^verbatim>\<open>while (i < N) { ... } return NULL;\<close>  The loop need not end for every \<open>N\<close> and \<open>T\<close>
  (it runs forever when \<open>T = 0\<close> and \<open>i < N\<close>), so \<open>None\<close> stands for a run that never returns.
\<close>

partial_function (option) while_loop ::
  "int \<Rightarrow> int \<Rightarrow> thread \<times> int list \<Rightarrow> (thread \<times> int list) option" where
  "while_loop N T c =
     (if status (fst c) = Running
      then (if idx (fst c) < N
            then while_loop N T (loop_body T c)
            else Some ((fst c)\<lparr>status := Returned\<rparr>, snd c))
      else Some c)"

declare while_loop.simps [code]

text \<open>
  \<^verbatim>\<open>i = (int)(long long int)ptr, thread_number = i\<close>: the argument is the thread's number,
  passed through a pointer.
\<close>

definition start_thread :: "int \<Rightarrow> thread" where
  "start_thread ptr = \<lparr>idx = ptr, thread_number = ptr, visited = [], status = Running\<rparr>"

definition calculate_primes ::
  "int \<Rightarrow> int \<Rightarrow> int \<Rightarrow> int list \<Rightarrow> (thread \<times> int list) option" where
  "calculate_primes N T ptr pc = while_loop N T (start_thread ptr, pc)"

subsection \<open>Threads running side by side\<close>

text \<open>
  The scheduler gives a thread one quantum at a time: one test of the loop condition,
  followed by the loop body or by the return.
\<close>

definition thread_step :: "int \<Rightarrow> int \<Rightarrow> thread \<times> int list \<Rightarrow> thread \<times> int list" where
  "thread_step N T c =
     (if status (fst c) = Running
      then (if idx (fst c) < N
            then loop_body T c
            else ((fst c)\<lparr>status := Returned\<rparr>, snd c))
      else c)"

text \<open>
  The memory the threads share: \<open>t_array\<close> holds the thread of each slot once it has
  been created (\<open>None\<close> before, as the array is initialised to 0), \<open>prime_count\<close> is
  the global array of counters.
\<close>

record world =
  t_array :: "thread option list"
  prime_count :: "int list"

definition sched_step :: "int \<Rightarrow> int \<Rightarrow> nat \<Rightarrow> world \<Rightarrow> world" where
  "sched_step N T k w =
     (if k < length (t_array w)
      then (case t_array w ! k of
              None \<Rightarrow> w
            | Some t \<Rightarrow>
                (let c = thread_step N T (t, prime_count w)
                 in \<lparr>t_array = (t_array w)[k := Some (fst c)], prime_count = snd c\<rparr>))
      else w)"

text \<open>A schedule is the list of the threads that get the successive quanta.\<close>

definition run_schedule :: "int \<Rightarrow> int \<Rightarrow> nat list \<Rightarrow> world \<Rightarrow> world" where
  "run_schedule N T sched w = fold (sched_step N T) sched w"

subsection \<open>The coordinator (\<open>main\<close>, lines 32 to 60)\<close>

text \<open>
  What \<open>main\<close> does that can be seen from outside is the list of its calls of the C
  library, in order.  What the library and the machine decide is an argument, the
  environment \<open>env\<close>:
  \<^item> \<open>sizeof_short\<close>: the value of \<^verbatim>\<open>sizeof(short)\<close>;
  \<^item> \<open>created k\<close>: whether \<^verbatim>\<open>pthread_create\<close> starts the thread of slot \<open>k\<close> (its return
    value is not looked at by the program);
  \<^item> \<open>join_invalid_returns\<close>: whether \<^verbatim>\<open>pthread_join\<close>, called on a slot of \<open>t_array\<close> whose
    thread was never created, returns (with an error code, which the program does not
    look at); POSIX leaves this call undefined;
  \<^item> \<open>start_tv\<close>, \<open>stop_tv\<close>: the two readings of the clock, as \<open>(tv_sec, tv_usec)\<close>;
  \<^item> \<open>fmt_f u\<close>: what \<^verbatim>\<open>printf("%f", (double)u / 1000000)\<close> writes;
  \<^item> \<open>schedule\<close>: the threads that get the successive quanta between the creation of
    the threads and the end of the joins.
\<close>

datatype event = Printf string | Gettimeofday | Pthread_create nat | Pthread_join nat

record env =
  sizeof_short :: nat
  created :: "nat \<Rightarrow> bool"
  join_invalid_returns :: bool
  start_tv :: "int \<times> int"
  stop_tv :: "int \<times> int"
  fmt_f :: "int \<Rightarrow> string"
  schedule :: "nat list"

text \<open>\<^verbatim>\<open>%lu\<close> and \<^verbatim>\<open>%d\<close>: decimal digits, with a minus sign for a negative \<open>int\<close>.\<close>

definition digit :: "nat \<Rightarrow> char" where
  "digit d = ''0123456789'' ! d"

fun show_nat :: "nat \<Rightarrow> string" where
  "show_nat n = (if n < 10 then [digit n] else show_nat (n div 10) @ [digit (n mod 10)])"

declare show_nat.simps [simp del]

definition show_int :: "int \<Rightarrow> string" where
  "show_int v = (if v < 0 then CHR ''-'' # show_nat (nat (- v)) else show_nat (nat v))"

text \<open>
  \<^verbatim>\<open>for (i = 0; i < THREAD_COUNT; i++) pthread_create(&t_array[i], NULL, calculate_primes, (void*)(uintptr_t)i);\<close>
  A thread that has been created waits for its first quantum; whether it gets it before
  or after the later threads are created makes no difference to what it does.
\<close>

definition create_loop :: "int \<Rightarrow> (nat \<Rightarrow> bool) \<Rightarrow> thread option list" where
  "create_loop T ok =
     map (\<lambda>k. if ok k then Some (start_thread (int k)) else None) [0..<nat T]"

text \<open>
  \<^verbatim>\<open>for (i = 0; i < THREAD_COUNT; i++) pthread_join(t_array[i], NULL);\<close>
  A join returns once its thread has returned; it never returns while the thread is
  still running when the schedule is used up.
\<close>

datatype join_result = All_joined | Never_returns | Join_undefined error

fun join_loop :: "bool \<Rightarrow> thread option list \<Rightarrow> join_result" where
  "join_loop r [] = All_joined"
| "join_loop r (None # ts) = (if r then join_loop r ts else Join_undefined InvalidThread)"
| "join_loop r (Some t # ts) =
     (case status t of
        Running \<Rightarrow> Never_returns
      | Returned \<Rightarrow> join_loop r ts
      | UB e \<Rightarrow> Join_undefined e)"

text \<open>
  \<^verbatim>\<open>for (i = 0; i < THREAD_COUNT; i++) primes_counted = primes_counted + prime_count[i];\<close>
\<close>

fun sum_loop :: "int list \<Rightarrow> int \<Rightarrow> error + int" where
  "sum_loop [] primes_counted = Inr primes_counted"
| "sum_loop (c # cs) primes_counted =
     (case add_int primes_counted c of
        Inl e \<Rightarrow> Inl e
      | Inr v \<Rightarrow> sum_loop cs v)"

text \<open>
  \<^verbatim>\<open>(stop.tv_sec - start.tv_sec) * 1000000 + stop.tv_usec - start.tv_usec\<close>
\<close>

definition elapsed_usec :: "int \<times> int \<Rightarrow> int \<times> int \<Rightarrow> int" where
  "elapsed_usec start stop = (fst stop - fst start) * 1000000 + snd stop - snd start"

datatype outcome = Exit int | Undefined_behaviour error | Blocked

record run =
  events :: "event list"
  outcome :: outcome

definition initial_world :: "int \<Rightarrow> (nat \<Rightarrow> bool) \<Rightarrow> world" where
  "initial_world T ok = \<lparr>t_array = create_loop T ok, prime_count = replicate (nat T) 0\<rparr>"

text \<open>
  Lines 42 to 52: the creation of the threads, the joins and the sum of the counters.
  The value is that of \<open>primes_counted\<close> after the last loop; \<open>None\<close> when a join never
  returns.
\<close>

definition count_in_parallel :: "int \<Rightarrow> int \<Rightarrow> env \<Rightarrow> (error + int) option" where
  "count_in_parallel N T env =
     (let w = run_schedule N T (schedule env) (initial_world T (created env))
      in case join_loop (join_invalid_returns env) (t_array w) of
           Never_returns \<Rightarrow> None
         | Join_undefined e \<Rightarrow> Some (Inl e)
         | All_joined \<Rightarrow> Some (sum_loop (prime_count w) 0))"

definition main :: "int \<Rightarrow> int \<Rightarrow> env \<Rightarrow> run" where
  "main N T env =
     (let ev = [Printf (show_nat (sizeof_short env) @ ''\<newline>''), Gettimeofday] @
               map Pthread_create [0..<nat T]
      in case count_in_parallel N T env of
           None \<Rightarrow> \<lparr>events = ev, outcome = Blocked\<rparr>
         | Some (Inl e) \<Rightarrow> \<lparr>events = ev, outcome = Undefined_behaviour e\<rparr>
         | Some (Inr primes_counted) \<Rightarrow>
             \<lparr>events = ev @ map Pthread_join [0..<nat T] @
                [Printf (show_int primes_counted @ '' primes found\<newline>''),
                 Gettimeofday,
                 Printf (''took '' @
                         fmt_f env (elapsed_usec (start_tv env) (stop_tv env)) @
                         '' sec\<newline>'')],
              outcome = Exit 0\<rparr>)"

text \<open>Standard output: what the calls of \<open>printf\<close> wrote, and its lines.\<close>

fun stdout_of :: "event list \<Rightarrow> string" where
  "stdout_of [] = []"
| "stdout_of (Printf s # es) = s @ stdout_of es"
| "stdout_of (e # es) = stdout_of es"

fun split_lines :: "string \<Rightarrow> string \<Rightarrow> string list" where
  "split_lines cur [] = (if cur = [] then [] else [cur])"
| "split_lines cur (c # cs) =
     (if c = CHR ''\<newline>'' then cur # split_lines [] cs else split_lines (cur @ [c]) cs)"

definition lines_of :: "string \<Rightarrow> string list" where
  "lines_of s = split_lines [] s"

subsection \<open>Notions used in the statements\<close>

text \<open>The first \<open>n\<close> members of the arithmetic progression \<open>k, k + T, k + 2T, ...\<close>\<close>

definition stride :: "int \<Rightarrow> int \<Rightarrow> nat \<Rightarrow> int list" where
  "stride k T n = map (\<lambda>m. k + int m * T) [0..<n]"

definition count_primes :: "int list \<Rightarrow> int" where
  "count_primes xs = int (length (filter isPrime xs))"

text \<open>
  The naive sequential scan of the specification: the primality test applied to every
  integer of \<open>[0, N)\<close> in turn.
\<close>

definition naive_scan :: "int \<Rightarrow> int" where
  "naive_scan N = count_primes [0..N - 1]"

text \<open>
  What holds of the thread in slot \<open>k\<close> and of its counter \<open>a = prime_count[k]\<close> between
  two quanta: the thread has visited the first members of its progression, all below
  \<open>N\<close>; while it has not met undefined behaviour its counter is the number of primes
  among them; and the only undefined behaviour it can meet is the overflow of
  \<^verbatim>\<open>i += THREAD_COUNT\<close>.
\<close>

definition thread_inv :: "int \<Rightarrow> int \<Rightarrow> nat \<Rightarrow> thread \<Rightarrow> int \<Rightarrow> bool" where
  "thread_inv N T k t a =
     (thread_number t = int k \<and>
      idx t \<le> max INT_MAX (int k) \<and>
      visited t = stride (int k) T (length (visited t)) \<and>
      (\<forall>v \<in> set (visited t). v < N) \<and>
      (case status t of
         Running \<Rightarrow>
           idx t = int k + int (length (visited t)) * T \<and> a = count_primes (visited t)
       | Returned \<Rightarrow>
           idx t = int k + int (length (visited t)) * T \<and> N \<le> idx t \<and>
           a = count_primes (visited t)
       | UB e \<Rightarrow> e = SignedOverflow \<and> INT_MAX < int k + int (length (visited t)) * T))"

text \<open>
  What holds of the shared memory between two quanta, when \<open>ok k\<close> says whether the thread
  of slot \<open>k\<close> was created: the slot of a thread that was not created is untouched.
\<close>

definition world_inv :: "int \<Rightarrow> int \<Rightarrow> (nat \<Rightarrow> bool) \<Rightarrow> world \<Rightarrow> bool" where
  "world_inv N T ok w =
     (length (t_array w) = nat T \<and> length (prime_count w) = nat T \<and>
      (\<forall>k < nat T.
         if ok k
         then (\<exists>t. t_array w ! k = Some t \<and> thread_inv N T k t (prime_count w ! k))
         else t_array w ! k = None \<and> prime_count w ! k = 0))"

text \<open>An upper bound of the number of quanta a thread still needs.\<close>

definition quanta_left :: "int \<Rightarrow> int \<Rightarrow> thread \<Rightarrow> nat" where
  "quanta_left N T t =
     (if status t = Running
      then (if idx t < N then nat ((N - idx t + T - 1) div T) + 1 else 1)
      else 0)"

text \<open>
  The partition of thread \<open>k\<close>: the indices its loop body has run on when the thread,
  started on the zeroed array as \<open>main\<close> does, returns.  A thread that never returns, or
  that stops in undefined behaviour, has none.
\<close>

definition partition_of :: "int \<Rightarrow> int \<Rightarrow> nat \<Rightarrow> int list option" where
  "partition_of N T k =
     (case calculate_primes N T (int k) (replicate (nat T) 0) of
        None \<Rightarrow> None
      | Some c \<Rightarrow> (if status (fst c) = Returned then Some (visited (fst c)) else None))"

text \<open>Every slot of \<open>t_array\<close> holds the thread of its own number.\<close>

definition slots_ok :: "world \<Rightarrow> bool" where
  "slots_ok w =
     (\<forall>k < length (t_array w). \<forall>t. t_array w ! k = Some t \<longrightarrow> thread_number t = int k)"

definition thread_quanta :: "int \<Rightarrow> int \<Rightarrow> world \<Rightarrow> nat \<Rightarrow> nat" where
  "thread_quanta N T w k =
     (case t_array w ! k of None \<Rightarrow> 0 | Some t \<Rightarrow> quanta_left N T t)"

text \<open>
  A schedule is long enough when it gives every thread a quantum for each of the at
  most \<open>\<lceil>N / T\<rceil>\<close> runs of its loop body and one more for its return.
\<close>

definition enough_quanta :: "int \<Rightarrow> int \<Rightarrow> nat list \<Rightarrow> bool" where
  "enough_quanta N T sched =
     (\<forall>k < nat T. nat ((N + T - 1) div T) + 1 \<le> count_list sched k)"

text \<open>
  The number of primes of \<open>[0, N)\<close> that lie in the partition of a thread that was
  created.
\<close>

definition count_started :: "int \<Rightarrow> int \<Rightarrow> (nat \<Rightarrow> bool) \<Rightarrow> int" where
  "count_started N T ok = count_primes (filter (\<lambda>v. ok (nat (v mod T))) [0..N - 1])"

subsection \<open>Environments for the examples\<close>

text \<open>
  \<open>fmt_usec\<close> is what \<^verbatim>\<open>%f\<close> writes for \<open>u\<close> microseconds when the division by 1000000 loses
  nothing: the seconds, a point, six digits.
\<close>

definition six_digits :: "nat \<Rightarrow> string" where
  "six_digits n = map (\<lambda>p. digit (n div 10 ^ p mod 10)) [5, 4, 3, 2, 1, 0]"

definition fmt_usec :: "int \<Rightarrow> string" where
  "fmt_usec u =
     (if u < 0
      then CHR ''-'' # show_nat (nat (- u) div 1000000) @ ''.'' @ six_digits (nat (- u) mod 1000000)
      else show_nat (nat u div 1000000) @ ''.'' @ six_digits (nat u mod 1000000))"

definition all_created :: "nat \<Rightarrow> bool" where
  "all_created k = True"

text \<open>Three threads taking turns, for \<open>N = 10\<close> and \<open>T = 3\<close>.\<close>

definition demo_env :: env where
  "demo_env =
     \<lparr>sizeof_short = 2, created = all_created, join_invalid_returns = False,
      start_tv = (5, 999000), stop_tv = (7, 1000), fmt_f = fmt_usec,
      schedule = concat (replicate 5 [0, 1, 2])\<rparr>"

text \<open>The same threads one after the other, last thread first, on another clock.\<close>

definition demo_env_sequential :: env where
  "demo_env_sequential =
     \<lparr>sizeof_short = 2, created = all_created, join_invalid_returns = False,
      start_tv = (100, 0), stop_tv = (100, 250), fmt_f = fmt_usec,
      schedule = replicate 5 2 @ replicate 5 1 @ replicate 5 0\<rparr>"

text \<open>
  \<^verbatim>\<open>pthread_create\<close> fails for the thread of slot 2, and \<^verbatim>\<open>pthread_join\<close> returns on
  the handle that was never set.
\<close>

definition not_slot_2 :: "nat \<Rightarrow> bool" where
  "not_slot_2 k = (k \<noteq> 2)"

definition demo_env_failure :: env where
  "demo_env_failure =
     \<lparr>sizeof_short = 2, created = not_slot_2, join_invalid_returns = True,
      start_tv = (5, 999000), stop_tv = (7, 1000), fmt_f = fmt_usec,
      schedule = concat (replicate 5 [0, 1, 2])\<rparr>"

text \<open>Four threads for \<open>N = 1\<close>.\<close>

definition demo_env_4 :: env where
  "demo_env_4 =
     \<lparr>sizeof_short = 2, created = all_created, join_invalid_returns = False,
      start_tv = (0, 0), stop_tv = (0, 10), fmt_f = fmt_usec,
      schedule = [0, 1, 2, 3, 0, 1, 2, 3]\<rparr>"

text \<open>Two threads for \<open>N = INT_MAX\<close>, each with all the quanta it can use.\<close>

definition overflow_env :: env where
  "overflow_env =
     \<lparr>sizeof_short = 2, created = all_created, join_invalid_returns = False,
      start_tv = (0, 0), stop_tv = (0, 10), fmt_f = fmt_usec,
      schedule = replicate 1073741825 0 @ replicate 1073741825 1\<rparr>"

subsection \<open>Facts about the primality test\<close>

lemma c_div_nonneg: "0 \<le> a \<Longrightarrow> 0 < b \<Longrightarrow> c_div a b = a div b"
  by (cases "a = 0") (simp_all add: c_div_def)

lemma c_mod_nonneg: "0 \<le> a \<Longrightarrow> 0 < b \<Longrightarrow> c_mod a b = a mod b"
  by (simp add: c_mod_def c_div_nonneg minus_mult_div_eq_mod)

lemma c_div_neg_2: "a < 0 \<Longrightarrow> c_div a 2 \<le> 0"
  by (simp add: c_div_def)

text \<open>\<open>j++\<close> stays in the range of \<open>int\<close> whenever the loop body runs.\<close>

lemma for_loop_no_overflow:
  assumes "i \<le> INT_MAX" and "j \<le> c_div i 2"
  shows "j + 1 \<le> INT_MAX"
proof (cases "i < 0")
  case True
  then have "c_div i 2 \<le> 0" by (rule c_div_neg_2)
  with assms(2) show ?thesis by (simp add: INT_MAX_def)
next
  case False
  then have "c_div i 2 = i div 2" by (simp add: c_div_nonneg)
  with assms show ?thesis by (simp add: INT_MAX_def)
qed

lemma for_loop_flag:
  "0 \<le> i \<Longrightarrow> 2 \<le> j \<Longrightarrow>
   fst (for_loop i j n) = (if \<exists>d. j \<le> d \<and> d \<le> i div 2 \<and> d dvd i then 1 else 0)"
proof (induction i j n rule: for_loop.induct)
  case (1 i j n)
  show ?case
  proof (cases "j \<le> i div 2")
    case False
    with "1.prems" show ?thesis
      by (subst for_loop.simps) (auto simp: c_div_nonneg)
  next
    case in_range: True
    show ?thesis
    proof (cases "j dvd i")
      case True
      with in_range "1.prems" show ?thesis
        by (subst for_loop.simps) (auto simp: c_div_nonneg c_mod_nonneg)
    next
      case False
      have step: "for_loop i j n = for_loop i (j + 1) (Suc n)"
        using False in_range "1.prems"
        by (subst for_loop.simps) (simp add: c_div_nonneg c_mod_nonneg dvd_eq_mod_eq_0)
      have ih: "fst (for_loop i (j + 1) (Suc n)) =
          (if \<exists>d. j + 1 \<le> d \<and> d \<le> i div 2 \<and> d dvd i then 1 else 0)"
        using "1.IH" False in_range "1.prems"
        by (simp add: c_div_nonneg c_mod_nonneg dvd_eq_mod_eq_0)
      have "(\<exists>d. j + 1 \<le> d \<and> d \<le> i div 2 \<and> d dvd i) = (\<exists>d. j \<le> d \<and> d \<le> i div 2 \<and> d dvd i)"
      proof
        assume "\<exists>d. j + 1 \<le> d \<and> d \<le> i div 2 \<and> d dvd i"
        then obtain d where d: "j + 1 \<le> d" "d \<le> i div 2" "d dvd i" by blast
        then have "j \<le> d" by simp
        with d show "\<exists>d. j \<le> d \<and> d \<le> i div 2 \<and> d dvd i" by blast
      next
        assume "\<exists>d. j \<le> d \<and> d \<le> i div 2 \<and> d dvd i"
        then obtain d where d: "j \<le> d" "d \<le> i div 2" "d dvd i" by blast
        with False have "d \<noteq> j" by blast
        with d have "j + 1 \<le> d" by simp
        with d show "\<exists>d. j + 1 \<le> d \<and> d \<le> i div 2 \<and> d dvd i" by blast
      qed
      with step ih show ?thesis by simp
    qed
  qed
qed

lemma for_loop_negative: "i < 2 \<Longrightarrow> 2 \<le> j \<Longrightarrow> for_loop i j n = (0, n)"
proof -
  assume "i < 2" "2 \<le> j"
  then have "c_div i 2 \<le> 0"
    by (cases "i < 0") (simp_all add: c_div_neg_2 c_div_nonneg)
  with \<open>2 \<le> j\<close> show ?thesis
    by (subst for_loop.simps) simp
qed

lemma for_loop_steps_le: "snd (for_loop i j n) \<le> n + nat (c_div i 2 + 1 - j)"
proof (induction i j n rule: for_loop.induct)
  case (1 i j n)
  show ?case
  proof (cases "j \<le> c_div i 2 \<and> c_mod i j \<noteq> 0")
    case True
    then have "for_loop i j n = for_loop i (j + 1) (Suc n)"
      by (subst for_loop.simps) simp
    moreover have "snd (for_loop i (j + 1) (Suc n)) \<le> Suc n + nat (c_div i 2 + 1 - (j + 1))"
      using "1.IH" True by simp
    ultimately show ?thesis using True by (simp only: snd_conv) arith
  next
    case False
    then show ?thesis
      by (subst for_loop.simps) auto
  qed
qed

lemma for_loop_steps_miss:
  "0 \<le> i \<Longrightarrow> 2 \<le> j \<Longrightarrow> \<forall>d. j \<le> d \<and> d \<le> i div 2 \<longrightarrow> \<not> d dvd i \<Longrightarrow>
   snd (for_loop i j n) = n + nat (i div 2 + 1 - j)"
proof (induction i j n rule: for_loop.induct)
  case (1 i j n)
  show ?case
  proof (cases "j \<le> i div 2")
    case False
    with "1.prems" show ?thesis
      by (subst for_loop.simps) (simp add: c_div_nonneg)
  next
    case True
    with "1.prems" have nd: "\<not> j dvd i" by simp
    have step: "for_loop i j n = for_loop i (j + 1) (Suc n)"
      using nd True "1.prems"
      by (subst for_loop.simps) (simp add: c_div_nonneg c_mod_nonneg dvd_eq_mod_eq_0)
    have "snd (for_loop i (j + 1) (Suc n)) = Suc n + nat (i div 2 + 1 - (j + 1))"
      using "1.IH" nd True "1.prems"
      by (simp add: c_div_nonneg c_mod_nonneg dvd_eq_mod_eq_0)
    with step True show ?thesis by simp
  qed
qed

lemma for_loop_steps_hit:
  "0 \<le> i \<Longrightarrow> 2 \<le> j \<Longrightarrow> j \<le> d \<Longrightarrow> d \<le> i div 2 \<Longrightarrow> d dvd i \<Longrightarrow>
   \<forall>e. j \<le> e \<and> e < d \<longrightarrow> \<not> e dvd i \<Longrightarrow>
   snd (for_loop i j n) = n + nat (d - j + 1)"
proof (induction i j n rule: for_loop.induct)
  case (1 i j n)
  show ?case
  proof (cases "j = d")
    case True
    with "1.prems" show ?thesis
      by (subst for_loop.simps) (simp add: c_div_nonneg c_mod_nonneg)
  next
    case False
    with "1.prems" have lt: "j < d" by simp
    with "1.prems" have nd: "\<not> j dvd i" by simp
    from lt "1.prems" have in_range: "j \<le> i div 2" by simp
    have step: "for_loop i j n = for_loop i (j + 1) (Suc n)"
      using nd in_range "1.prems"
      by (subst for_loop.simps) (simp add: c_div_nonneg c_mod_nonneg dvd_eq_mod_eq_0)
    have "snd (for_loop i (j + 1) (Suc n)) = Suc n + nat (d - (j + 1) + 1)"
      using "1.IH" nd in_range lt "1.prems"
      by (simp add: c_div_nonneg c_mod_nonneg dvd_eq_mod_eq_0)
    with step lt show ?thesis by simp
  qed
qed

lemma isPrime_less_2: "v < 2 \<Longrightarrow> \<not> isPrime v"
  by (simp add: isPrime_def)

lemma isPrime_iff:
  "2 \<le> v \<Longrightarrow> isPrime v = (\<forall>d. 2 \<le> d \<and> d \<le> c_div v 2 \<longrightarrow> \<not> d dvd v)"
  by (simp add: isPrime_def trial_division_def for_loop_flag c_div_nonneg)

subsection \<open>One run of the loop body\<close>


lemma stride_Suc: "stride k T (Suc n) = stride k T n @ [k + int n * T]"
  by (simp add: stride_def)

lemma length_stride: "length (stride k T n) = n"
  by (simp add: stride_def)

lemma count_primes_snoc:
  "count_primes (xs @ [x]) = count_primes xs + (if isPrime x then 1 else 0)"
  by (simp add: count_primes_def)

lemma count_primes_bounds: "0 \<le> count_primes xs \<and> count_primes xs \<le> int (length xs)"
  by (simp add: count_primes_def)

lemma increment_frame:
  "increment pc k = Inr pc' \<Longrightarrow>
   length pc' = length pc \<and> (\<forall>j. j \<noteq> nat k \<longrightarrow> pc' ! j = pc ! j)"
  by (auto simp: increment_def split: if_splits sum.splits)

lemma loop_body_frame:
  "length (snd (loop_body T (t, pc))) = length pc \<and>
   (\<forall>j. j \<noteq> nat (thread_number t) \<longrightarrow> snd (loop_body T (t, pc)) ! j = pc ! j)"
  by (auto simp: loop_body_def Let_def dest: increment_frame split: sum.splits)

lemma loop_body_thread_number:
  "thread_number (fst (loop_body T (t, pc))) = thread_number t"
  by (auto simp: loop_body_def Let_def split: sum.splits)

lemma loop_body_inv:
  assumes inv: "thread_inv N T k t (pc ! k)"
    and run: "status t = Running"
    and lt: "idx t < N"
    and T: "0 < T"
    and N: "N \<le> INT_MAX"
    and k: "k < length pc"
  shows "thread_inv N T k (fst (loop_body T (t, pc))) (snd (loop_body T (t, pc)) ! k)"
proof -
  let ?n = "length (visited t)"
  from inv run have tn: "thread_number t = int k"
    and bnd: "idx t \<le> max INT_MAX (int k)"
    and vis: "visited t = stride (int k) T ?n"
    and below: "\<forall>v \<in> set (visited t). v < N"
    and idx: "idx t = int k + int ?n * T"
    and a: "pc ! k = count_primes (visited t)"
    by (simp_all add: thread_inv_def)
  from T have "int ?n * 1 \<le> int ?n * T"
    by (intro mult_left_mono) simp_all
  with idx have n_le: "int ?n \<le> idx t" by simp
  then have idx0: "0 \<le> idx t" by simp
  from a count_primes_bounds [of "visited t"] n_le lt N
  have a_bounds: "0 \<le> pc ! k" "pc ! k + 1 \<le> INT_MAX" by simp_all
  have inc: "increment pc (int k) = Inr (pc[k := pc ! k + 1])"
    using a_bounds k by (simp add: increment_def add_int_def INT_MIN_def)
  define pc' where "pc' = (if isPrime (idx t) then pc[k := pc ! k + 1] else pc)"
  have pc'k: "pc' ! k = count_primes (visited t @ [idx t])"
    using a k by (simp add: pc'_def count_primes_snoc)
  have vis': "visited t @ [idx t] = stride (int k) T (Suc ?n)"
    using vis idx by (simp add: stride_Suc)
  have below': "\<forall>v \<in> set (visited t @ [idx t]). v < N"
    using below lt by simp
  show ?thesis
  proof (cases "idx t + T \<le> INT_MAX")
    case True
    with idx0 T have add: "add_int (idx t) T = Inr (idx t + T)"
      by (simp add: add_int_def INT_MIN_def)
    have body: "loop_body T (t, pc) = (t\<lparr>visited := visited t @ [idx t], idx := idx t + T\<rparr>, pc')"
      by (simp add: loop_body_def Let_def tn inc add pc'_def)
    show ?thesis
      using tn vis' below' lt run idx pc'k True
      by (simp add: body thread_inv_def distrib_right length_stride)
  next
    case False
    then have add: "add_int (idx t) T = Inl SignedOverflow"
      by (simp add: add_int_def)
    have body: "loop_body T (t, pc) =
        (t\<lparr>visited := visited t @ [idx t], status := UB SignedOverflow\<rparr>, pc')"
      by (simp add: loop_body_def Let_def tn inc add pc'_def)
    show ?thesis
      using tn vis' below' lt False idx bnd
      by (simp add: body thread_inv_def distrib_right length_stride)
  qed
qed

subsection \<open>One quantum of a thread\<close>

lemma thread_step_idle: "status (fst c) \<noteq> Running \<Longrightarrow> thread_step N T c = c"
  by (simp add: thread_step_def)

lemma thread_step_frame:
  "length (snd (thread_step N T (t, pc))) = length pc \<and>
   (\<forall>j. j \<noteq> nat (thread_number t) \<longrightarrow> snd (thread_step N T (t, pc)) ! j = pc ! j)"
  using loop_body_frame [of T t pc] by (simp add: thread_step_def)

lemma thread_step_inv:
  assumes "thread_inv N T k t (pc ! k)" "0 < T" "N \<le> INT_MAX" "k < length pc"
  shows "thread_inv N T k (fst (thread_step N T (t, pc))) (snd (thread_step N T (t, pc)) ! k)"
proof (cases "status t = Running")
  case False
  with assms show ?thesis by (simp add: thread_step_def)
next
  case run: True
  show ?thesis
  proof (cases "idx t < N")
    case True
    with run assms show ?thesis
      by (simp add: thread_step_def loop_body_inv)
  next
    case False
    with run assms(1) show ?thesis
      by (simp add: thread_step_def thread_inv_def)
  qed
qed

lemma loop_body_status:
  "status t = Running \<Longrightarrow>
   (status (fst (loop_body T (t, pc))) = Running \<and>
    idx (fst (loop_body T (t, pc))) = idx t + T) \<or>
   (\<exists>e. status (fst (loop_body T (t, pc))) = UB e)"
  by (auto simp: loop_body_def Let_def add_int_def split: sum.splits if_splits)

lemma loop_body_visited:
  "visited (fst (loop_body T (t, pc))) = visited t @ [idx t]"
  by (auto simp: loop_body_def Let_def split: sum.splits)

lemma quanta_left_0: "(quanta_left N T t = 0) = (status t \<noteq> Running)"
  by (simp add: quanta_left_def)

lemma div_stride: "0 < T \<Longrightarrow> (x + T) div T = x div T + (1::int)"
  using div_add_self2 [of T x] by simp

lemma thread_step_quanta:
  assumes run: "status t = Running" and T: "0 < T"
  shows "quanta_left N T (fst (thread_step N T (t, pc))) < quanta_left N T t"
proof (cases "idx t < N")
  case False
  with run show ?thesis
    by (simp add: thread_step_def quanta_left_def)
next
  case True
  let ?t' = "fst (loop_body T (t, pc))"
  have "T div T \<le> (N - idx t + T - 1) div T"
    using True T by (intro zdiv_mono1) simp_all
  with T have big: "1 \<le> (N - idx t + T - 1) div T"
    by simp
  from loop_body_status [OF run, of T pc] show ?thesis
  proof
    assume r: "status ?t' = Running \<and> idx ?t' = idx t + T"
    show ?thesis
    proof (cases "idx t + T < N")
      case False
      with r run True big show ?thesis
        by (simp add: thread_step_def quanta_left_def)
    next
      case lt: True
      have "(N - (idx t + T) + T - 1 + T) div T = (N - (idx t + T) + T - 1) div T + 1"
        using T by (rule div_stride)
      then have "(N - idx t + T - 1) div T = (N - (idx t + T) + T - 1) div T + 1"
        by (simp add: algebra_simps)
      moreover from lt T have "0 \<le> (N - (idx t + T) + T - 1) div T"
        by (simp add: pos_imp_zdiv_nonneg_iff)
      ultimately show ?thesis
        using r run True lt by (simp add: thread_step_def quanta_left_def)
    qed
  next
    assume "\<exists>e. status ?t' = UB e"
    with run True show ?thesis
      by (auto simp: thread_step_def quanta_left_def)
  qed
qed

subsection \<open>The loop of the worker\<close>

lemma while_loop_step:
  "while_loop N T c = (if status (fst c) = Running then while_loop N T (thread_step N T c) else Some c)"
  by (subst while_loop.simps) (simp add: thread_step_def while_loop.simps [of N T "((fst c)\<lparr>status := Returned\<rparr>, snd c)"])

lemma while_loop_funpow:
  "0 < T \<Longrightarrow>
   \<exists>m \<le> quanta_left N T (fst c).
     while_loop N T c = Some ((thread_step N T ^^ m) c) \<and>
     status (fst ((thread_step N T ^^ m) c)) \<noteq> Running"
proof (induction "quanta_left N T (fst c)" arbitrary: c rule: less_induct)
  case less
  show ?case
  proof (cases "status (fst c) = Running")
    case False
    then have "while_loop N T c = Some ((thread_step N T ^^ 0) c)"
      by (subst while_loop_step) simp
    with False show ?thesis by force
  next
    case True
    let ?c' = "thread_step N T c"
    from True less.prems have dec: "quanta_left N T (fst ?c') < quanta_left N T (fst c)"
      using thread_step_quanta [of "fst c" T N "snd c"] by simp
    from less.hyps [OF dec less.prems] obtain m where
      m: "m \<le> quanta_left N T (fst ?c')"
        "while_loop N T ?c' = Some ((thread_step N T ^^ m) ?c')"
        "status (fst ((thread_step N T ^^ m) ?c')) \<noteq> Running"
      by blast
    have "while_loop N T c = while_loop N T ?c'"
      using True by (subst while_loop_step) simp
    with m have "while_loop N T c = Some ((thread_step N T ^^ Suc m) c)"
      "status (fst ((thread_step N T ^^ Suc m) c)) \<noteq> Running"
      by (simp_all add: funpow_swap1)
    moreover from m dec have "Suc m \<le> quanta_left N T (fst c)" by simp
    ultimately show ?thesis by blast
  qed
qed

lemma funpow_thread_step_inv:
  assumes "thread_inv N T k t (pc ! k)" "0 < T" "N \<le> INT_MAX" "k < length pc"
  shows "thread_inv N T k (fst ((thread_step N T ^^ m) (t, pc)))
           (snd ((thread_step N T ^^ m) (t, pc)) ! k) \<and>
         length (snd ((thread_step N T ^^ m) (t, pc))) = length pc \<and>
         (\<forall>j. j \<noteq> k \<longrightarrow> snd ((thread_step N T ^^ m) (t, pc)) ! j = pc ! j)"
proof (induction m)
  case 0
  from assms show ?case by simp
next
  case (Suc m)
  let ?c = "(thread_step N T ^^ m) (t, pc)"
  from Suc have inv: "thread_inv N T k (fst ?c) (snd ?c ! k)"
    and len: "length (snd ?c) = length pc"
    and frame: "\<forall>j. j \<noteq> k \<longrightarrow> snd ?c ! j = pc ! j"
    by simp_all
  from inv have tn: "nat (thread_number (fst ?c)) = k"
    by (simp add: thread_inv_def)
  have step: "(thread_step N T ^^ Suc m) (t, pc) = thread_step N T (fst ?c, snd ?c)"
    by simp
  from thread_step_inv [OF _ assms(2,3), of k "fst ?c" "snd ?c"] inv len assms(4)
  have "thread_inv N T k (fst (thread_step N T (fst ?c, snd ?c)))
          (snd (thread_step N T (fst ?c, snd ?c)) ! k)"
    by simp
  moreover from thread_step_frame [of N T "fst ?c" "snd ?c"] tn len frame
  have "length (snd (thread_step N T (fst ?c, snd ?c))) = length pc"
    "\<forall>j. j \<noteq> k \<longrightarrow> snd (thread_step N T (fst ?c, snd ?c)) ! j = pc ! j"
    by simp_all
  ultimately show ?case
    unfolding step by blast
qed

subsection \<open>Partitions\<close>

lemma set_stride: "set (stride k T n) = (\<lambda>m. k + int m * T) ` {..<n}"
  by (auto simp: stride_def)

lemma distinct_stride: "0 < T \<Longrightarrow> distinct (stride k T n)"
  by (simp add: stride_def distinct_map inj_on_def)

lemma final_next_index:
  assumes inv: "thread_inv N T k t a" and fin: "status t \<noteq> Running" and N: "N \<le> INT_MAX"
  shows "N \<le> int k + int (length (visited t)) * T"
proof (cases "status t")
  case Running
  with fin show ?thesis by simp
next
  case Returned
  with inv show ?thesis by (simp add: thread_inv_def)
next
  case (UB e)
  with inv have "INT_MAX < int k + int (length (visited t)) * T"
    by (simp add: thread_inv_def)
  with N show ?thesis by simp
qed

lemma final_visited:
  assumes inv: "thread_inv N T k t a" and fin: "status t \<noteq> Running"
    and T: "0 < T" and k: "int k < T" and N: "N \<le> INT_MAX"
  shows "set (visited t) = {v. 0 \<le> v \<and> v < N \<and> v mod T = int k}"
proof -
  let ?n = "length (visited t)"
  from inv have vis: "visited t = stride (int k) T ?n"
    and below: "\<forall>v \<in> set (visited t). v < N"
    by (simp_all add: thread_inv_def)
  have next_idx: "N \<le> int k + int ?n * T"
    using inv fin N by (rule final_next_index)
  show ?thesis
  proof (intro equalityI subsetI)
    fix v assume v: "v \<in> set (visited t)"
    with vis obtain m where m: "m < ?n" "v = int k + int m * T"
      using set_stride [of "int k" T ?n] by auto
    from T have "0 \<le> int m * T" by simp
    with m k T have "0 \<le> v" "v mod T = int k" by simp_all
    with v below show "v \<in> {v. 0 \<le> v \<and> v < N \<and> v mod T = int k}" by simp
  next
    fix v assume "v \<in> {v. 0 \<le> v \<and> v < N \<and> v mod T = int k}"
    then have v: "0 \<le> v" "v < N" "v mod T = int k" by simp_all
    define m where "m = nat (v div T)"
    from v T have "0 \<le> v div T" by (simp add: pos_imp_zdiv_nonneg_iff)
    then have im: "int m = v div T" by (simp add: m_def)
    have veq: "v = int k + int m * T"
      using v(3) im mult_div_mod_eq [of T v] by (simp add: mult.commute)
    with v(2) next_idx have "int m * T < int ?n * T" by simp
    with T have "m < ?n" by (simp add: mult_less_cancel_right)
    with veq have "v \<in> (\<lambda>m. int k + int m * T) ` {..<?n}" by blast
    with vis show "v \<in> set (visited t)"
      using set_stride [of "int k" T ?n] by simp
  qed
qed

lemma final_distinct: "thread_inv N T k t a \<Longrightarrow> 0 < T \<Longrightarrow> distinct (visited t)"
  using distinct_stride [of T "int k" "length (visited t)"] by (simp add: thread_inv_def)

lemma count_primes_card: "distinct xs \<Longrightarrow> count_primes xs = int (card {v \<in> set xs. isPrime v})"
proof -
  assume "distinct xs"
  then have "distinct (filter isPrime xs)" by simp
  then have "card (set (filter isPrime xs)) = length (filter isPrime xs)"
    by (rule distinct_card)
  then show ?thesis by (simp add: count_primes_def)
qed

lemma final_count:
  assumes "thread_inv N T k t a" "status t \<noteq> Running" "0 < T" "int k < T" "N \<le> INT_MAX"
  shows "count_primes (visited t) = int (card {v. 0 \<le> v \<and> v < N \<and> v mod T = int k \<and> isPrime v})"
proof -
  have "{v \<in> set (visited t). isPrime v} = {v. 0 \<le> v \<and> v < N \<and> v mod T = int k \<and> isPrime v}"
    using final_visited [OF assms] by auto
  with final_distinct [OF assms(1,3)] show ?thesis
    by (simp add: count_primes_card)
qed

lemma count_started_card:
  "count_started N T ok = int (card {v. 0 \<le> v \<and> v < N \<and> isPrime v \<and> ok (nat (v mod T))})"
proof -
  have "distinct (filter (\<lambda>v. ok (nat (v mod T))) [0..N - 1])" by simp
  moreover have "{v \<in> set (filter (\<lambda>v. ok (nat (v mod T))) [0..N - 1]). isPrime v} =
      {v. 0 \<le> v \<and> v < N \<and> isPrime v \<and> ok (nat (v mod T))}"
    by auto
  ultimately show ?thesis
    by (simp add: count_started_def count_primes_card)
qed

lemma count_started_all: "count_started N T (\<lambda>k. True) = naive_scan N"
  by (simp add: count_started_def naive_scan_def)

lemma sum_partitions:
  assumes T: "0 < T"
  shows "(\<Sum>k < nat T. if ok k
            then int (card {v. 0 \<le> v \<and> v < N \<and> v mod T = int k \<and> isPrime v}) else 0) =
         count_started N T ok"
proof -
  let ?A = "\<lambda>k. {v. 0 \<le> v \<and> v < N \<and> v mod T = int k \<and> isPrime v}"
  let ?I = "{k. k < nat T \<and> ok k}"
  have fin: "\<And>k. finite (?A k)"
  proof -
    fix k
    have "?A k \<subseteq> {0..N}" by auto
    then show "finite (?A k)" by (rule finite_subset) simp
  qed
  have "(\<Sum>k < nat T. if ok k then int (card (?A k)) else 0) = (\<Sum>k \<in> ?I. int (card (?A k)))"
    by (rule sum.mono_neutral_cong_right) auto
  also have "\<dots> = int (\<Sum>k \<in> ?I. card (?A k))" by simp
  also have "(\<Sum>k \<in> ?I. card (?A k)) = card (\<Union>k \<in> ?I. ?A k)"
    by (rule card_UN_disjoint [symmetric]) (use fin in auto)
  also have "(\<Union>k \<in> ?I. ?A k) = {v. 0 \<le> v \<and> v < N \<and> isPrime v \<and> ok (nat (v mod T))}"
  proof (intro equalityI subsetI)
    fix v assume "v \<in> (\<Union>k \<in> ?I. ?A k)"
    then show "v \<in> {v. 0 \<le> v \<and> v < N \<and> isPrime v \<and> ok (nat (v mod T))}" by auto
  next
    fix v assume "v \<in> {v. 0 \<le> v \<and> v < N \<and> isPrime v \<and> ok (nat (v mod T))}"
    then have v: "0 \<le> v" "v < N" "isPrime v" "ok (nat (v mod T))" by simp_all
    from T have "0 \<le> v mod T" "v mod T < T" by simp_all
    then have "nat (v mod T) < nat T" "int (nat (v mod T)) = v mod T" by simp_all
    with v have "nat (v mod T) \<in> ?I" "v \<in> ?A (nat (v mod T))" by simp_all
    then show "v \<in> (\<Union>k \<in> ?I. ?A k)" by blast
  qed
  finally show ?thesis by (simp add: count_started_card)
qed

subsection \<open>Schedules\<close>

lemma start_thread_inv: "thread_inv N T k (start_thread (int k)) 0"
  by (simp add: thread_inv_def start_thread_def stride_def count_primes_def)

lemma initial_world_inv: "world_inv N T ok (initial_world T ok)"
  by (simp add: world_inv_def initial_world_def create_loop_def start_thread_inv)

lemma sched_step_length:
  "length (t_array (sched_step N T k w)) = length (t_array w) \<and>
   length (prime_count (sched_step N T k w)) = length (prime_count w)"
  using thread_step_frame [of N T _ "prime_count w"]
  by (simp add: sched_step_def Let_def split: option.splits)

lemma sched_step_other:
  "j \<noteq> k \<Longrightarrow> t_array (sched_step N T k w) ! j = t_array w ! j"
  by (simp add: sched_step_def Let_def split: option.splits)

lemma sched_step_inv:
  assumes inv: "world_inv N T ok w" and T: "0 < T" and N: "N \<le> INT_MAX"
  shows "world_inv N T ok (sched_step N T k w)"
proof (cases "k < nat T \<and> ok k")
  case False
  with inv have "sched_step N T k w = w"
    by (auto simp: sched_step_def world_inv_def split: option.splits)
  with inv show ?thesis by simp
next
  case True
  let ?pc = "prime_count w"
  from inv have len: "length (t_array w) = nat T" "length ?pc = nat T"
    by (simp_all add: world_inv_def)
  from inv have "\<forall>j < nat T. if ok j
      then (\<exists>t. t_array w ! j = Some t \<and> thread_inv N T j t (?pc ! j))
      else t_array w ! j = None \<and> ?pc ! j = 0"
    by (simp add: world_inv_def)
  with True have "\<exists>t. t_array w ! k = Some t \<and> thread_inv N T k t (?pc ! k)"
    by (auto split: if_splits)
  then obtain t where t: "t_array w ! k = Some t" "thread_inv N T k t (?pc ! k)"
    by blast
  let ?c = "thread_step N T (t, ?pc)"
  have w': "sched_step N T k w = \<lparr>t_array = (t_array w)[k := Some (fst ?c)], prime_count = snd ?c\<rparr>"
    using True len t by (simp add: sched_step_def Let_def)
  from t(2) have tn: "nat (thread_number t) = k" by (simp add: thread_inv_def)
  have inv_k: "thread_inv N T k (fst ?c) (snd ?c ! k)"
    using t(2) T N True len by (intro thread_step_inv) simp_all
  have frame: "length (snd ?c) = nat T" "\<forall>j. j \<noteq> k \<longrightarrow> snd ?c ! j = ?pc ! j"
    using thread_step_frame [of N T t ?pc] tn len by simp_all
  show ?thesis
    unfolding world_inv_def w'
  proof (intro conjI allI impI)
    fix j assume j: "j < nat T"
    show "if ok j
       then \<exists>t'. t_array \<lparr>t_array = (t_array w)[k := Some (fst ?c)], prime_count = snd ?c\<rparr> ! j = Some t' \<and>
              thread_inv N T j t' (prime_count \<lparr>t_array = (t_array w)[k := Some (fst ?c)], prime_count = snd ?c\<rparr> ! j)
       else t_array \<lparr>t_array = (t_array w)[k := Some (fst ?c)], prime_count = snd ?c\<rparr> ! j = None \<and>
            prime_count \<lparr>t_array = (t_array w)[k := Some (fst ?c)], prime_count = snd ?c\<rparr> ! j = 0"
    proof (cases "j = k")
      case True
      with inv_k \<open>k < nat T \<and> ok k\<close> len show ?thesis by simp
    next
      case False
      with inv j frame show ?thesis
        by (simp add: world_inv_def)
    qed
  qed (simp_all add: len frame)
qed

lemma run_schedule_inv:
  "world_inv N T ok w \<Longrightarrow> 0 < T \<Longrightarrow> N \<le> INT_MAX \<Longrightarrow> world_inv N T ok (run_schedule N T sched w)"
  unfolding run_schedule_def
  by (induction sched arbitrary: w) (simp_all add: sched_step_inv)

lemma sched_step_quanta_other:
  "j \<noteq> k \<Longrightarrow> thread_quanta N T (sched_step N T k w) j = thread_quanta N T w j"
  by (simp add: thread_quanta_def sched_step_other)

lemma sched_step_quanta:
  assumes "0 < T" "k < length (t_array w)"
  shows "thread_quanta N T (sched_step N T k w) k \<le> thread_quanta N T w k - 1"
proof (cases "t_array w ! k")
  case None
  with assms show ?thesis by (simp add: thread_quanta_def sched_step_def)
next
  case (Some t)
  let ?c = "thread_step N T (t, prime_count w)"
  have q: "thread_quanta N T (sched_step N T k w) k = quanta_left N T (fst ?c)"
    using Some assms by (simp add: thread_quanta_def sched_step_def Let_def)
  show ?thesis
  proof (cases "status t = Running")
    case True
    from thread_step_quanta [OF True assms(1), of N "prime_count w"] q Some
    show ?thesis by (simp add: thread_quanta_def)
  next
    case False
    then have "?c = (t, prime_count w)" by (simp add: thread_step_idle)
    with False q show ?thesis by (simp add: quanta_left_def)
  qed
qed

lemma run_schedule_length:
  "length (t_array (run_schedule N T sched w)) = length (t_array w)"
  unfolding run_schedule_def
  by (induction sched arbitrary: w) (simp_all add: sched_step_length)

lemma run_schedule_quanta:
  "0 < T \<Longrightarrow> k < length (t_array w) \<Longrightarrow>
   thread_quanta N T (run_schedule N T sched w) k \<le> thread_quanta N T w k - count_list sched k"
proof (induction sched arbitrary: w)
  case Nil
  show ?case by (simp add: run_schedule_def)
next
  case (Cons j sched)
  let ?w = "sched_step N T j w"
  have run: "run_schedule N T (j # sched) w = run_schedule N T sched ?w"
    by (simp add: run_schedule_def)
  from Cons.prems have len: "k < length (t_array ?w)" by (simp add: sched_step_length)
  from Cons.IH [OF Cons.prems(1) len]
  have ih: "thread_quanta N T (run_schedule N T sched ?w) k \<le> thread_quanta N T ?w k - count_list sched k" .
  show ?case
  proof (cases "j = k")
    case True
    with sched_step_quanta [OF Cons.prems] have "thread_quanta N T ?w k \<le> thread_quanta N T w k - 1"
      by simp
    with ih True show ?thesis unfolding run by simp
  next
    case False
    with ih show ?thesis unfolding run by (simp add: sched_step_quanta_other)
  qed
qed

lemma start_quanta:
  assumes T: "0 < T"
  shows "quanta_left N T (start_thread (int k)) \<le> nat ((N + T - 1) div T) + 1"
proof -
  have "(N - int k + T - 1) div T \<le> (N + T - 1) div T"
    using T by (intro zdiv_mono1) simp_all
  then show ?thesis
    by (simp add: quanta_left_def start_thread_def nat_mono)
qed

lemma initial_quanta:
  "0 < T \<Longrightarrow> k < nat T \<Longrightarrow>
   thread_quanta N T (initial_world T ok) k \<le> nat ((N + T - 1) div T) + 1"
  using start_quanta [of T N k]
  by (simp add: thread_quanta_def initial_world_def create_loop_def)

lemma enough_quanta_done:
  assumes T: "0 < T" and fair: "enough_quanta N T sched" and k: "k < nat T"
  shows "thread_quanta N T (run_schedule N T sched (initial_world T ok)) k = 0"
proof -
  have "k < length (t_array (initial_world T ok))"
    using k by (simp add: initial_world_def create_loop_def)
  from run_schedule_quanta [OF T this, of N sched]
  have "thread_quanta N T (run_schedule N T sched (initial_world T ok)) k
      \<le> thread_quanta N T (initial_world T ok) k - count_list sched k" .
  moreover from fair k have "nat ((N + T - 1) div T) + 1 \<le> count_list sched k"
    by (simp add: enough_quanta_def)
  ultimately show ?thesis
    using initial_quanta [OF T k, of N ok] by simp
qed

subsection \<open>The joins and the sum\<close>

lemma join_loop_All_joined:
  "(join_loop r ts = All_joined) =
   (\<forall>x \<in> set ts. case x of None \<Rightarrow> r | Some t \<Rightarrow> status t = Returned)"
proof (induction ts)
  case Nil
  show ?case by simp
next
  case (Cons x ts)
  show ?case
  proof (cases x)
    case None
    with Cons show ?thesis by (cases r) simp_all
  next
    case (Some t)
    with Cons show ?thesis by (cases "status t") simp_all
  qed
qed

lemma join_loop_Never_returns:
  "join_loop r ts = Never_returns \<Longrightarrow> \<exists>t. Some t \<in> set ts \<and> status t = Running"
proof (induction ts)
  case Nil
  then show ?case by simp
next
  case (Cons x ts)
  show ?case
  proof (cases x)
    case None
    with Cons show ?thesis by (auto split: if_splits)
  next
    case (Some t)
    with Cons show ?thesis by (cases "status t") auto
  qed
qed

lemma join_loop_undefined:
  "join_loop r ts = Join_undefined e \<Longrightarrow>
   (\<not> r \<and> None \<in> set ts) \<or> (\<exists>t. Some t \<in> set ts \<and> status t = UB e)"
proof (induction ts)
  case Nil
  then show ?case by simp
next
  case (Cons x ts)
  show ?case
  proof (cases x)
    case None
    with Cons show ?thesis by (auto split: if_splits)
  next
    case (Some t)
    with Cons show ?thesis by (cases "status t") auto
  qed
qed

lemma sum_loop_Inr: "sum_loop cs a = Inr v \<Longrightarrow> v = a + sum_list cs"
proof (induction cs arbitrary: a)
  case Nil
  then show ?case by simp
next
  case (Cons c cs)
  from Cons.prems obtain v' where v': "add_int a c = Inr v'" "sum_loop cs v' = Inr v"
    by (auto split: sum.splits)
  from v'(1) have "v' = a + c"
    by (auto simp: add_int_def split: if_splits)
  with Cons.IH [OF v'(2)] show ?case by simp
qed

lemma sum_loop_ok:
  "\<forall>c \<in> set cs. 0 \<le> c \<Longrightarrow> 0 \<le> a \<Longrightarrow> a + sum_list cs \<le> INT_MAX \<Longrightarrow>
   sum_loop cs a = Inr (a + sum_list cs)"
proof (induction cs arbitrary: a)
  case Nil
  show ?case by simp
next
  case (Cons c cs)
  from Cons.prems have c: "0 \<le> c" and rest: "0 \<le> sum_list cs"
    by (simp_all add: sum_list_nonneg)
  with Cons.prems have "add_int a c = Inr (a + c)"
    by (simp add: add_int_def INT_MIN_def)
  moreover have "sum_loop cs (a + c) = Inr (a + c + sum_list cs)"
    using Cons.prems c by (intro Cons.IH) (simp_all add: add.assoc)
  ultimately show ?case by (simp add: add.assoc)
qed

subsection \<open>The shared memory once the threads are done\<close>

lemma no_UB:
  assumes inv: "thread_inv N T k t a" and range: "N + T \<le> INT_MAX + 1"
    and N: "0 < N" and T: "0 < T" and k: "int k < T"
  shows "status t \<noteq> UB e"
proof
  assume "status t = UB e"
  let ?n = "length (visited t)"
  from inv \<open>status t = UB e\<close> have over: "INT_MAX < int k + int ?n * T"
    and vis: "visited t = stride (int k) T ?n"
    and below: "\<forall>v \<in> set (visited t). v < N"
    by (simp_all add: thread_inv_def)
  show False
  proof (cases ?n)
    case 0
    with over k range N show False by simp
  next
    case (Suc m)
    then have "m \<in> {..<?n}" by simp
    then have "int k + int m * T \<in> (\<lambda>m. int k + int m * T) ` {..<?n}" by (rule imageI)
    with vis have "int k + int m * T \<in> set (visited t)"
      using set_stride [of "int k" T ?n] by simp
    with below have "int k + int m * T < N" by blast
    with over Suc range show False by (simp add: distrib_right)
  qed
qed

lemma count_started_bounds: "0 \<le> count_started N T ok \<and> count_started N T ok \<le> max 0 N"
proof -
  have "length (filter isPrime (filter (\<lambda>v. ok (nat (v mod T))) [0..N - 1])) \<le> length [0..N - 1]"
    by (meson length_filter_le order_trans)
  then show ?thesis
    by (auto simp: count_started_def count_primes_def)
qed

lemma world_counter:
  assumes inv: "world_inv N T ok w" and k: "k < nat T"
  shows "if ok k
         then \<exists>t. t_array w ! k = Some t \<and> thread_inv N T k t (prime_count w ! k)
         else t_array w ! k = None \<and> prime_count w ! k = 0"
  using inv k by (simp add: world_inv_def)

lemma final_world_counter:
  assumes inv: "world_inv N T ok w" and T: "0 < T" and N: "N \<le> INT_MAX"
    and ret: "\<forall>x \<in> set (t_array w). case x of None \<Rightarrow> r | Some t \<Rightarrow> status t = Returned"
    and k: "k < nat T"
  shows "prime_count w ! k =
    (if ok k then int (card {v. 0 \<le> v \<and> v < N \<and> v mod T = int k \<and> isPrime v}) else 0)"
proof (cases "ok k")
  case False
  with world_counter [OF inv k] show ?thesis by simp
next
  case True
  with world_counter [OF inv k] obtain t where
    t: "t_array w ! k = Some t" "thread_inv N T k t (prime_count w ! k)"
    by auto
  from inv k have "k < length (t_array w)" by (simp add: world_inv_def)
  with t(1) have "Some t \<in> set (t_array w)" by (metis nth_mem)
  with ret have st: "status t = Returned" by force
  with t(2) have "prime_count w ! k = count_primes (visited t)"
    by (simp add: thread_inv_def)
  moreover have "count_primes (visited t) =
      int (card {v. 0 \<le> v \<and> v < N \<and> v mod T = int k \<and> isPrime v})"
    using t(2) st T k N by (intro final_count) simp_all
  ultimately show ?thesis using True by simp
qed

lemma final_world_sum:
  assumes inv: "world_inv N T ok w" and T: "0 < T" and N: "N \<le> INT_MAX"
    and ret: "\<forall>x \<in> set (t_array w). case x of None \<Rightarrow> r | Some t \<Rightarrow> status t = Returned"
  shows "sum_list (prime_count w) = count_started N T ok"
proof -
  from inv have len: "length (prime_count w) = nat T" by (simp add: world_inv_def)
  have "sum_list (prime_count w) = (\<Sum>k < nat T. prime_count w ! k)"
    using len by (simp add: sum_list_sum_nth atLeast0LessThan)
  also have "\<dots> = (\<Sum>k < nat T. if ok k
      then int (card {v. 0 \<le> v \<and> v < N \<and> v mod T = int k \<and> isPrime v}) else 0)"
    by (rule sum.cong) (use final_world_counter [OF inv T N ret] in simp_all)
  also have "\<dots> = count_started N T ok"
    using T by (rule sum_partitions)
  finally show ?thesis .
qed

lemma world_counters_nonneg:
  assumes inv: "world_inv N T ok w"
    and noub: "\<forall>t e. Some t \<in> set (t_array w) \<longrightarrow> status t \<noteq> UB e"
  shows "\<forall>c \<in> set (prime_count w). 0 \<le> c"
proof
  fix c assume "c \<in> set (prime_count w)"
  then obtain k where k: "k < length (prime_count w)" "c = prime_count w ! k"
    by (auto simp: in_set_conv_nth)
  with inv have kT: "k < nat T" "k < length (t_array w)" by (simp_all add: world_inv_def)
  show "0 \<le> c"
  proof (cases "ok k")
    case False
    with world_counter [OF inv kT(1)] k show ?thesis by simp
  next
    case True
    with world_counter [OF inv kT(1)] obtain t where
      t: "t_array w ! k = Some t" "thread_inv N T k t (prime_count w ! k)"
      by auto
    with kT have "Some t \<in> set (t_array w)" by (metis nth_mem)
    with noub have "\<forall>e. status t \<noteq> UB e" by blast
    with t(2) have "prime_count w ! k = count_primes (visited t)"
      by (cases "status t") (simp_all add: thread_inv_def)
    with k count_primes_bounds [of "visited t"] show ?thesis by simp
  qed
qed

subsection \<open>The count of lines 42 to 52\<close>

lemma count_started_all_created:
  assumes T: "0 < T" and ok: "\<forall>k < nat T. ok k"
  shows "count_started N T ok = naive_scan N"
proof -
  have "\<And>v. ok (nat (v mod T))"
  proof -
    fix v
    from T have "0 \<le> v mod T" "v mod T < T" by simp_all
    then have "nat (v mod T) < nat T" by simp
    with ok show "ok (nat (v mod T))" by blast
  qed
  then show ?thesis
    by (simp add: count_started_def naive_scan_def)
qed

lemma count_in_parallel_Inr:
  assumes T: "0 < T" and N: "N \<le> INT_MAX"
    and res: "count_in_parallel N T env = Some (Inr v)"
  shows "v = count_started N T (created env)"
proof -
  let ?w = "run_schedule N T (schedule env) (initial_world T (created env))"
  have inv: "world_inv N T (created env) ?w"
    using initial_world_inv T N by (rule run_schedule_inv)
  from res have joined: "join_loop (join_invalid_returns env) (t_array ?w) = All_joined"
    and sum: "sum_loop (prime_count ?w) 0 = Inr v"
    by (auto simp: count_in_parallel_def Let_def split: join_result.splits)
  from joined have ret: "\<forall>x \<in> set (t_array ?w).
      case x of None \<Rightarrow> join_invalid_returns env | Some t \<Rightarrow> status t = Returned"
    by (simp add: join_loop_All_joined)
  from sum_loop_Inr [OF sum] final_world_sum [OF inv T N ret] show ?thesis by simp
qed

lemma world_entry:
  assumes inv: "world_inv N T ok w" and x: "x \<in> set (t_array w)"
  shows "\<exists>k < nat T. x = t_array w ! k \<and>
    (if ok k then \<exists>t. x = Some t \<and> thread_inv N T k t (prime_count w ! k) else x = None)"
proof -
  from x obtain k where k: "k < length (t_array w)" "x = t_array w ! k"
    by (auto simp: in_set_conv_nth)
  with inv have kT: "k < nat T" by (simp add: world_inv_def)
  from world_counter [OF inv kT] k(2) kT show ?thesis by auto
qed

lemma world_no_UB:
  assumes inv: "world_inv N T ok w" and range: "N + T \<le> INT_MAX + 1"
    and N: "0 < N" and T: "0 < T"
  shows "\<forall>t e. Some t \<in> set (t_array w) \<longrightarrow> status t \<noteq> UB e"
proof (intro allI impI)
  fix t e assume "Some t \<in> set (t_array w)"
  from world_entry [OF inv this] obtain k where
    k: "k < nat T" "thread_inv N T k t (prime_count w ! k)"
    by (auto split: if_splits)
  from k(1) have "int k < T" by simp
  with k(2) range N T show "status t \<noteq> UB e" by (intro no_UB)
qed

lemma count_in_parallel_range:
  assumes N: "0 < N" and T: "0 < T" and range: "N + T \<le> INT_MAX + 1"
    and join: "(\<forall>k < nat T. created env k) \<or> join_invalid_returns env"
  shows "count_in_parallel N T env =
    (if join_loop (join_invalid_returns env)
          (t_array (run_schedule N T (schedule env) (initial_world T (created env)))) = Never_returns
     then None else Some (Inr (count_started N T (created env))))"
proof -
  let ?w = "run_schedule N T (schedule env) (initial_world T (created env))"
  let ?r = "join_invalid_returns env"
  from range T have NI: "N \<le> INT_MAX" by simp
  have inv: "world_inv N T (created env) ?w"
    using initial_world_inv T NI by (rule run_schedule_inv)
  have noub: "\<forall>t e. Some t \<in> set (t_array ?w) \<longrightarrow> status t \<noteq> UB e"
    using inv range N T by (rule world_no_UB)
  show ?thesis
  proof (cases "join_loop ?r (t_array ?w)")
    case Never_returns
    then show ?thesis by (simp add: count_in_parallel_def)
  next
    case (Join_undefined e)
    from join_loop_undefined [OF this] noub have "\<not> ?r" "None \<in> set (t_array ?w)"
      by blast+
    from world_entry [OF inv this(2)] obtain k where "k < nat T" "\<not> created env k"
      by (auto split: if_splits)
    with join \<open>\<not> ?r\<close> show ?thesis by blast
  next
    case All_joined
    then have ret: "\<forall>x \<in> set (t_array ?w). case x of None \<Rightarrow> ?r | Some t \<Rightarrow> status t = Returned"
      by (simp add: join_loop_All_joined)
    have total: "sum_list (prime_count ?w) = count_started N T (created env)"
      using inv T NI ret by (rule final_world_sum)
    have "sum_loop (prime_count ?w) 0 = Inr (0 + sum_list (prime_count ?w))"
    proof (rule sum_loop_ok)
      show "\<forall>c \<in> set (prime_count ?w). 0 \<le> c"
        using inv noub by (rule world_counters_nonneg)
      show "0 + sum_list (prime_count ?w) \<le> INT_MAX"
        using total count_started_bounds [of N T "created env"] NI N by simp
    qed simp
    with All_joined total show ?thesis
      by (simp add: count_in_parallel_def)
  qed
qed

lemma all_quanta_used:
  assumes T: "0 < T" and fair: "enough_quanta N T sched"
  shows "\<forall>t. Some t \<in> set (t_array (run_schedule N T sched (initial_world T ok))) \<longrightarrow>
           status t \<noteq> Running"
proof (intro allI impI)
  let ?w = "run_schedule N T sched (initial_world T ok)"
  fix t assume "Some t \<in> set (t_array ?w)"
  then obtain k where k: "k < length (t_array ?w)" "t_array ?w ! k = Some t"
    by (auto simp: in_set_conv_nth)
  then have "k < nat T"
    by (simp add: run_schedule_length initial_world_def create_loop_def)
  from enough_quanta_done [OF T fair this, of ok] k(2)
  show "status t \<noteq> Running"
    by (simp add: thread_quanta_def quanta_left_0)
qed

lemma enough_quanta_joins:
  assumes T: "0 < T" and fair: "enough_quanta N T sched"
  shows "join_loop r (t_array (run_schedule N T sched (initial_world T ok))) \<noteq> Never_returns"
  using join_loop_Never_returns all_quanta_used [OF T fair] by blast

lemma count_in_parallel_enough:
  assumes "0 < N" "0 < T" "N + T \<le> INT_MAX + 1"
    and "(\<forall>k < nat T. created env k) \<or> join_invalid_returns env"
    and "enough_quanta N T (schedule env)"
  shows "count_in_parallel N T env = Some (Inr (count_started N T (created env)))"
  using count_in_parallel_range [OF assms(1-4)] enough_quanta_joins [OF assms(2,5)]
  by simp

subsection \<open>Slots and thread numbers\<close>

lemma thread_step_thread_number:
  "thread_number (fst (thread_step N T (t, pc))) = thread_number t"
  by (simp add: thread_step_def loop_body_thread_number)

lemma initial_slots_ok: "slots_ok (initial_world T ok)"
  by (simp add: slots_ok_def initial_world_def create_loop_def start_thread_def)

lemma sched_step_slots_ok:
  assumes "slots_ok w"
  shows "slots_ok (sched_step N T k w)"
proof (cases "k < length (t_array w)")
  case False
  with assms show ?thesis by (simp add: sched_step_def)
next
  case k: True
  show ?thesis
  proof (cases "t_array w ! k")
    case None
    with assms show ?thesis by (simp add: sched_step_def)
  next
    case (Some t)
    with assms k have tn: "thread_number t = int k" by (simp add: slots_ok_def)
    let ?c = "thread_step N T (t, prime_count w)"
    have w': "t_array (sched_step N T k w) = (t_array w)[k := Some (fst ?c)]"
      using k Some by (simp add: sched_step_def Let_def)
    have "thread_number (fst ?c) = int k"
      using tn by (simp add: thread_step_thread_number)
    with assms k show ?thesis
      unfolding slots_ok_def w' by (auto simp: nth_list_update split: if_splits)
  qed
qed

lemma run_schedule_slots_ok: "slots_ok w \<Longrightarrow> slots_ok (run_schedule N T sched w)"
  unfolding run_schedule_def
  by (induction sched arbitrary: w) (simp_all add: sched_step_slots_ok)

lemma sched_step_frame:
  assumes ok: "slots_ok w" and j: "j \<noteq> k"
  shows "prime_count (sched_step N T k w) ! j = prime_count w ! j"
proof (cases "k < length (t_array w)")
  case False
  then show ?thesis by (simp add: sched_step_def)
next
  case k: True
  show ?thesis
  proof (cases "t_array w ! k")
    case None
    then show ?thesis by (simp add: sched_step_def)
  next
    case (Some t)
    with ok k have tn: "nat (thread_number t) = k" by (simp add: slots_ok_def)
    have "prime_count (sched_step N T k w) = snd (thread_step N T (t, prime_count w))"
      using k Some by (simp add: sched_step_def Let_def)
    with thread_step_frame [of N T t "prime_count w"] tn j show ?thesis by simp
  qed
qed

subsection \<open>The worker run on its own\<close>

lemma funpow_thread_step_frame:
  "thread_number (fst ((thread_step N T ^^ m) (t, pc))) = thread_number t \<and>
   length (snd ((thread_step N T ^^ m) (t, pc))) = length pc \<and>
   (\<forall>j. j \<noteq> nat (thread_number t) \<longrightarrow> snd ((thread_step N T ^^ m) (t, pc)) ! j = pc ! j)"
proof (induction m)
  case 0
  show ?case by simp
next
  case (Suc m)
  let ?c = "(thread_step N T ^^ m) (t, pc)"
  have step: "(thread_step N T ^^ Suc m) (t, pc) = thread_step N T (fst ?c, snd ?c)"
    by simp
  from Suc thread_step_frame [where N = N and T = T and t = "fst ?c" and pc = "snd ?c"]
    thread_step_thread_number [where N = N and T = T and t = "fst ?c" and pc = "snd ?c"]
  show ?case unfolding step by simp
qed

lemma calculate_primes_funpow:
  assumes "0 < T"
  shows "\<exists>m. calculate_primes N T ptr pc = Some ((thread_step N T ^^ m) (start_thread ptr, pc)) \<and>
             status (fst ((thread_step N T ^^ m) (start_thread ptr, pc))) \<noteq> Running"
  using while_loop_funpow [OF assms, where N = N and c = "(start_thread ptr, pc)"]
  unfolding calculate_primes_def by blast

lemma calculate_primes_frame:
  assumes "0 < T"
  shows "\<exists>t pc'. calculate_primes N T (int k) pc = Some (t, pc') \<and> status t \<noteq> Running \<and>
           length pc' = length pc \<and> (\<forall>j. j \<noteq> k \<longrightarrow> pc' ! j = pc ! j)"
proof -
  from calculate_primes_funpow [OF assms, where N = N and ptr = "int k" and pc = pc] obtain m where
    m: "calculate_primes N T (int k) pc = Some ((thread_step N T ^^ m) (start_thread (int k), pc))"
       "status (fst ((thread_step N T ^^ m) (start_thread (int k), pc))) \<noteq> Running"
    by blast
  let ?c = "(thread_step N T ^^ m) (start_thread (int k), pc)"
  have "nat (thread_number (start_thread (int k))) = k" by (simp add: start_thread_def)
  with funpow_thread_step_frame [where N = N and T = T and m = m and t = "start_thread (int k)" and pc = pc]
  have "length (snd ?c) = length pc" "\<forall>j. j \<noteq> k \<longrightarrow> snd ?c ! j = pc ! j"
    by simp_all
  with m show ?thesis by (intro exI [of _ "fst ?c"] exI [of _ "snd ?c"]) simp
qed

lemma calculate_primes_final:
  assumes T: "0 < T" and N: "N \<le> INT_MAX" and k: "k < nat T"
  shows "\<exists>t pc'. calculate_primes N T (int k) (replicate (nat T) 0) = Some (t, pc') \<and>
           status t \<noteq> Running \<and> thread_inv N T k t (pc' ! k)"
proof -
  let ?pc = "replicate (nat T) (0::int)"
  from calculate_primes_funpow [OF T, where N = N and ptr = "int k" and pc = ?pc] obtain m where
    m: "calculate_primes N T (int k) ?pc = Some ((thread_step N T ^^ m) (start_thread (int k), ?pc))"
       "status (fst ((thread_step N T ^^ m) (start_thread (int k), ?pc))) \<noteq> Running"
    by blast
  let ?c = "(thread_step N T ^^ m) (start_thread (int k), ?pc)"
  have "thread_inv N T k (start_thread (int k)) (?pc ! k)"
    using k by (simp add: start_thread_inv)
  from funpow_thread_step_inv [OF this T N, where m = m] k
  have "thread_inv N T k (fst ?c) (snd ?c ! k)" by simp
  with m show ?thesis by (intro exI [of _ "fst ?c"] exI [of _ "snd ?c"]) simp
qed

lemma calculate_primes_returns:
  assumes N: "0 < N" and T: "0 < T" and range: "N + T \<le> INT_MAX + 1" and k: "k < nat T"
  shows "\<exists>t pc'. calculate_primes N T (int k) (replicate (nat T) 0) = Some (t, pc') \<and>
           status t = Returned \<and> thread_inv N T k t (pc' ! k)"
proof -
  from T range have NI: "N \<le> INT_MAX" by simp
  from calculate_primes_final [OF T NI k] obtain t pc' where
    t: "calculate_primes N T (int k) (replicate (nat T) 0) = Some (t, pc')"
       "status t \<noteq> Running" "thread_inv N T k t (pc' ! k)"
    by blast
  from k have "int k < T" by simp
  with t(3) range N T have "\<forall>e. status t \<noteq> UB e"
    by (auto dest: no_UB)
  with t(2) have "status t = Returned" by (cases "status t") simp_all
  with t(1,3) show ?thesis by blast
qed

lemma partition_of_set:
  assumes N: "0 < N" and T: "0 < T" and range: "N + T \<le> INT_MAX + 1" and k: "k < nat T"
  shows "\<exists>p. partition_of N T k = Some p \<and> distinct p \<and>
           set p = {v. 0 \<le> v \<and> v < N \<and> v mod T = int k}"
proof -
  from calculate_primes_returns [OF assms] obtain t pc' where
    r: "calculate_primes N T (int k) (replicate (nat T) 0) = Some (t, pc')"
       "status t = Returned" "thread_inv N T k t (pc' ! k)"
    by blast
  then have p: "partition_of N T k = Some (visited t)" by (simp add: partition_of_def)
  from T range have NI: "N \<le> INT_MAX" by simp
  from k have "int k < T" by simp
  with r T NI have "set (visited t) = {v. 0 \<le> v \<and> v < N \<and> v mod T = int k}"
    by (intro final_visited) simp_all
  moreover from r(3) T have "distinct (visited t)" by (rule final_distinct)
  ultimately show ?thesis using p by blast
qed

lemma progression_set:
  assumes T: "0 < T" and k: "int k < T"
  shows "{v. v < N \<and> (\<exists>m::nat. v = int k + int m * T)} = {v. 0 \<le> v \<and> v < N \<and> v mod T = int k}"
proof (intro equalityI subsetI)
  fix v assume "v \<in> {v. v < N \<and> (\<exists>m::nat. v = int k + int m * T)}"
  then obtain m :: nat where v: "v < N" "v = int k + int m * T" by blast
  from T have "0 \<le> int m * T" by simp
  with v k T show "v \<in> {v. 0 \<le> v \<and> v < N \<and> v mod T = int k}" by simp
next
  fix v assume "v \<in> {v. 0 \<le> v \<and> v < N \<and> v mod T = int k}"
  then have v: "0 \<le> v" "v < N" "v mod T = int k" by simp_all
  from v T have "0 \<le> v div T" by (simp add: pos_imp_zdiv_nonneg_iff)
  then have "int (nat (v div T)) = v div T" by simp
  with v(3) mult_div_mod_eq [of T v] have "v = int k + int (nat (v div T)) * T"
    by (simp add: mult.commute)
  with v(2) show "v \<in> {v. v < N \<and> (\<exists>m::nat. v = int k + int m * T)}" by blast
qed

subsection \<open>The number of runs of the loop body\<close>

lemma quanta_left_body:
  assumes "status t = Running" "idx t < N" "0 < T"
  shows "2 \<le> quanta_left N T t"
proof -
  have "T div T \<le> (N - idx t + T - 1) div T"
    using assms by (intro zdiv_mono1) simp_all
  with assms show ?thesis by (simp add: quanta_left_def)
qed

lemma thread_step_visits:
  assumes T: "0 < T"
  shows "length (visited (fst (thread_step N T (t, pc)))) +
           (quanta_left N T (fst (thread_step N T (t, pc))) - 1)
         \<le> length (visited t) + (quanta_left N T t - 1)"
proof (cases "status t = Running")
  case False
  then show ?thesis by (simp add: thread_step_idle)
next
  case run: True
  show ?thesis
  proof (cases "idx t < N")
    case False
    with run show ?thesis by (simp add: thread_step_def quanta_left_def)
  next
    case True
    with run have step: "thread_step N T (t, pc) = loop_body T (t, pc)"
      by (simp add: thread_step_def)
    from thread_step_quanta [OF run T, where N = N and pc = pc] quanta_left_body [OF run True T]
    show ?thesis
      unfolding step by (simp add: loop_body_visited)
  qed
qed

lemma funpow_thread_step_visits:
  assumes T: "0 < T"
  shows "length (visited (fst ((thread_step N T ^^ m) (t, pc)))) +
           (quanta_left N T (fst ((thread_step N T ^^ m) (t, pc))) - 1)
         \<le> length (visited t) + (quanta_left N T t - 1)"
proof (induction m)
  case 0
  show ?case by simp
next
  case (Suc m)
  let ?c = "(thread_step N T ^^ m) (t, pc)"
  have step: "(thread_step N T ^^ Suc m) (t, pc) = thread_step N T (fst ?c, snd ?c)"
    by simp
  from thread_step_visits [OF T, where N = N and t = "fst ?c" and pc = "snd ?c"] Suc
  show ?case unfolding step by simp
qed

lemma start_iterations:
  assumes T: "0 < T"
  shows "quanta_left N T (start_thread (int k)) - 1 \<le> nat ((N + T - 1) div T)"
    and "N \<le> int k \<Longrightarrow> quanta_left N T (start_thread (int k)) - 1 = 0"
  using start_quanta [OF T, where N = N and k = k] by (simp_all add: quanta_left_def start_thread_def)

lemma calculate_primes_iterations:
  assumes T: "0 < T"
  shows "\<exists>t pc'. calculate_primes N T (int k) pc = Some (t, pc') \<and> status t \<noteq> Running \<and>
           length (visited t) \<le> nat ((N + T - 1) div T) \<and>
           (N \<le> int k \<longrightarrow> visited t = [] \<and> pc' = pc)"
proof -
  from calculate_primes_funpow [OF T, where N = N and ptr = "int k" and pc = pc] obtain m where
    m: "calculate_primes N T (int k) pc = Some ((thread_step N T ^^ m) (start_thread (int k), pc))"
       "status (fst ((thread_step N T ^^ m) (start_thread (int k), pc))) \<noteq> Running"
    by blast
  let ?c = "(thread_step N T ^^ m) (start_thread (int k), pc)"
  from funpow_thread_step_visits [OF T, where N = N and m = m and t = "start_thread (int k)" and pc = pc]
  have le: "length (visited (fst ?c)) \<le> quanta_left N T (start_thread (int k)) - 1"
    by (simp add: start_thread_def)
  with start_iterations(1) [OF T, where N = N and k = k]
  have b1: "length (visited (fst ?c)) \<le> nat ((N + T - 1) div T)"
    by simp
  have b2: "N \<le> int k \<longrightarrow> visited (fst ?c) = []"
  proof
    assume "N \<le> int k"
    with start_iterations(2) [OF T, where N = N and k = k] le
    show "visited (fst ?c) = []" by simp
  qed
  have b3: "N \<le> int k \<longrightarrow> snd ?c = pc"
  proof
    assume "N \<le> int k"
    have "(thread_step N T ^^ m) (start_thread (int k), pc) =
        (if m = 0 then (start_thread (int k), pc)
         else ((start_thread (int k))\<lparr>status := Returned\<rparr>, pc))"
    proof (induction m)
      case 0
      show ?case by simp
    next
      case (Suc m)
      with \<open>N \<le> int k\<close> show ?case
        by (simp add: thread_step_def start_thread_def)
    qed
    then show "snd ?c = pc" by simp
  qed
  from m b1 b2 b3 show ?thesis
    by (intro exI [of _ "fst ?c"] exI [of _ "snd ?c"]) simp
qed

subsection \<open>What the program writes\<close>

lemma digit_no_newline:
  "d < 10 \<Longrightarrow> digit d \<noteq> CHR ''\<newline>'' \<and> CHR ''\<newline>'' \<noteq> digit d"
proof -
  assume "d < 10"
  then have "d \<in> {0, 1, 2, 3, 4, 5, 6, 7, 8, 9}" by auto
  then show ?thesis by (auto simp: digit_def)
qed

lemma show_nat_no_newline: "CHR ''\<newline>'' \<notin> set (show_nat n)"
proof (induction n rule: show_nat.induct)
  case (1 n)
  show ?case
  proof (cases "n < 10")
    case True
    then show ?thesis
      by (subst show_nat.simps) (simp add: digit_no_newline)
  next
    case False
    have "n mod 10 < 10" by simp
    with False "1.IH" show ?thesis
      by (subst show_nat.simps) (simp add: digit_no_newline)
  qed
qed

lemma show_int_no_newline: "CHR ''\<newline>'' \<notin> set (show_int v)"
  by (simp add: show_int_def show_nat_no_newline)

lemma split_lines_line:
  "CHR ''\<newline>'' \<notin> set s \<Longrightarrow>
   split_lines cur (s @ CHR ''\<newline>'' # rest) = (cur @ s) # split_lines [] rest"
  by (induction s arbitrary: cur) auto

lemma lines_of_three:
  assumes "CHR ''\<newline>'' \<notin> set a" "CHR ''\<newline>'' \<notin> set b" "CHR ''\<newline>'' \<notin> set c"
  shows "lines_of (a @ ''\<newline>'' @ b @ ''\<newline>'' @ c @ ''\<newline>'') = [a, b, c]"
  using assms by (simp add: lines_of_def split_lines_line)

lemma lines_of_one:
  "CHR ''\<newline>'' \<notin> set a \<Longrightarrow> lines_of (a @ ''\<newline>'') = [a]"
  by (simp add: lines_of_def split_lines_line)

lemma stdout_of_append: "stdout_of (es @ fs) = stdout_of es @ stdout_of fs"
  by (induction es rule: stdout_of.induct) simp_all

lemma stdout_of_creates: "stdout_of (map Pthread_create ks) = []"
  by (induction ks) simp_all

lemma stdout_of_joins: "stdout_of (map Pthread_join ks) = []"
  by (induction ks) simp_all

lemma main_of_count:
  "count_in_parallel N T env = Some (Inr c) \<Longrightarrow>
   main N T env =
     \<lparr>events = [Printf (show_nat (sizeof_short env) @ ''\<newline>''), Gettimeofday] @
        map Pthread_create [0..<nat T] @ map Pthread_join [0..<nat T] @
        [Printf (show_int c @ '' primes found\<newline>''), Gettimeofday,
         Printf (''took '' @ fmt_f env (elapsed_usec (start_tv env) (stop_tv env)) @
                 '' sec\<newline>'')],
      outcome = Exit 0\<rparr>"
  by (simp add: main_def)

lemma main_exit:
  "outcome (main N T env) = Exit st \<Longrightarrow> st = 0 \<and> (\<exists>c. count_in_parallel N T env = Some (Inr c))"
  by (auto simp: main_def Let_def split: option.splits sum.splits)

lemma main_first_events:
  "\<exists>rest. events (main N T env) =
     Printf (show_nat (sizeof_short env) @ ''\<newline>'') # Gettimeofday #
     map Pthread_create [0..<nat T] @ rest"
  by (auto simp: main_def Let_def split: option.splits sum.splits)

lemma main_stdout_short:
  "outcome (main N T env) \<noteq> Exit 0 \<Longrightarrow>
   stdout_of (events (main N T env)) = show_nat (sizeof_short env) @ ''\<newline>''"
  by (auto simp: main_def Let_def stdout_of_append stdout_of_creates
      split: option.splits sum.splits)

lemma main_stdout:
  "count_in_parallel N T env = Some (Inr c) \<Longrightarrow>
   stdout_of (events (main N T env)) =
     show_nat (sizeof_short env) @ ''\<newline>'' @
     (show_int c @ '' primes found'') @ ''\<newline>'' @
     (''took '' @ fmt_f env (elapsed_usec (start_tv env) (stop_tv env)) @ '' sec'') @
     ''\<newline>''"
  by (simp add: main_of_count stdout_of_append stdout_of_creates stdout_of_joins)

lemma main_lines:
  assumes "count_in_parallel N T env = Some (Inr c)"
    and "CHR ''\<newline>'' \<notin> set (fmt_f env (elapsed_usec (start_tv env) (stop_tv env)))"
  shows "lines_of (stdout_of (events (main N T env))) =
     [show_nat (sizeof_short env), show_int c @ '' primes found'',
      ''took '' @ fmt_f env (elapsed_usec (start_tv env) (stop_tv env)) @ '' sec'']"
  unfolding main_stdout [OF assms(1)]
  by (rule lines_of_three) (use assms(2) in \<open>simp_all add: show_nat_no_newline show_int_no_newline\<close>)

subsection \<open>Helpers for the examples\<close>

lemma count_list_replicate: "count_list (replicate n x) y = (if x = y then n else 0)"
  by (cases "x = y") (induction n, simp_all)+

lemma count_started_cong:
  assumes T: "0 < T" and eq: "\<forall>k < nat T. ok1 k = ok2 k"
  shows "count_started N T ok1 = count_started N T ok2"
proof -
  have "\<And>v. ok1 (nat (v mod T)) = ok2 (nat (v mod T))"
  proof -
    fix v
    from T have "0 \<le> v mod T" "v mod T < T" by simp_all
    then have "nat (v mod T) < nat T" by simp
    with eq show "ok1 (nat (v mod T)) = ok2 (nat (v mod T))" by blast
  qed
  then show ?thesis by (simp add: count_started_def)
qed

lemma empty_partition:
  assumes inv: "thread_inv N T k t a" and k: "N \<le> int k"
  shows "visited t = []"
proof (cases "visited t")
  case Nil
  then show ?thesis .
next
  case (Cons v vs)
  from inv have vis: "visited t = stride (int k) T (length (visited t))"
    and below: "\<forall>v \<in> set (visited t). v < N"
    by (simp_all add: thread_inv_def)
  from Cons have "0 \<in> {..<length (visited t)}" by simp
  then have "int k + int 0 * T \<in> (\<lambda>m. int k + int m * T) ` {..<length (visited t)}"
    by (rule imageI)
  with vis have "int k \<in> set (visited t)"
    using set_stride [of "int k" T "length (visited t)"] by simp
  with below k show ?thesis by force
qed

lemma overflow_run:
  "count_in_parallel 2147483647 2 overflow_env = Some (Inl SignedOverflow)"
proof -
  let ?N = "2147483647 :: int"
  let ?w = "run_schedule ?N 2 (schedule overflow_env) (initial_world 2 (created overflow_env))"
  have N: "?N \<le> INT_MAX" by (simp add: INT_MAX_def)
  have inv: "world_inv ?N 2 (created overflow_env) ?w"
    using initial_world_inv _ N by (rule run_schedule_inv) simp
  have fair: "enough_quanta ?N 2 (schedule overflow_env)"
    by (simp add: enough_quanta_def overflow_env_def count_list_replicate)
  have fin: "\<forall>t. Some t \<in> set (t_array ?w) \<longrightarrow> status t \<noteq> Running"
    using all_quanta_used [OF _ fair] by simp
  from world_counter [OF inv, of 0] obtain t where
    t: "t_array ?w ! 0 = Some t" "thread_inv ?N 2 0 t (prime_count ?w ! 0)"
    by (auto simp: overflow_env_def all_created_def)
  from inv have len: "length (t_array ?w) = 2" by (simp add: world_inv_def)
  then obtain ts where ts: "t_array ?w = Some t # ts"
    using t(1) by (cases "t_array ?w") simp_all
  then have "Some t \<in> set (t_array ?w)" by simp
  with fin have nrun: "status t \<noteq> Running" by blast
  have nret: "status t \<noteq> Returned"
  proof
    assume "status t = Returned"
    with t(2) have "idx t = int (length (visited t)) * 2" "?N \<le> idx t" "idx t \<le> 2147483647"
      by (simp_all add: thread_inv_def INT_MAX_def)
    then show False by presburger
  qed
  from nrun nret t(2) have "status t = UB SignedOverflow"
    by (cases "status t") (simp_all add: thread_inv_def)
  with ts have "join_loop (join_invalid_returns overflow_env) (t_array ?w) =
      Join_undefined SignedOverflow"
    by simp
  then show ?thesis by (simp add: count_in_parallel_def)
qed

lemma overflow_worker:
  "calculate_primes 2 2147483647 1 pc =
   Some (\<lparr>idx = 1, thread_number = 1, visited = [1], status = UB SignedOverflow\<rparr>, pc)"
  by (simp add: calculate_primes_def start_thread_def while_loop.simps loop_body_def
      isPrime_def add_int_def INT_MAX_def INT_MIN_def)

subsection \<open>The examples, evaluated\<close>

lemma join_loop_invalid:
  "\<not> r \<Longrightarrow> None \<in> set ts \<Longrightarrow> \<forall>t. Some t \<in> set ts \<longrightarrow> status t = Returned \<Longrightarrow>
   join_loop r ts = Join_undefined InvalidThread"
proof (induction ts)
  case Nil
  then show ?case by simp
next
  case (Cons x ts)
  show ?case
  proof (cases x)
    case None
    with Cons.prems(1) show ?thesis by simp
  next
    case (Some t)
    with Cons.prems(2) have mem: "None \<in> set ts" by simp
    from Some have "Some t \<in> set (x # ts)" by simp
    with Cons.prems(3) have st: "status t = Returned" by blast
    from Cons.prems(3) have rest: "\<forall>t. Some t \<in> set ts \<longrightarrow> status t = Returned"
      by (meson list.set_intros(2))
    have "join_loop r ts = Join_undefined InvalidThread"
      using Cons.prems(1) mem rest by (rule Cons.IH)
    then show ?thesis by (simp add: Some st)
  qed
qed

lemma fmt_usec_example: "fmt_usec 1002000 = ''1.002000''"
  by (simp add: fmt_usec_def six_digits_def show_nat.simps digit_def)

lemma demo_elapsed:
  "fmt_f demo_env (elapsed_usec (start_tv demo_env) (stop_tv demo_env)) = ''1.002000''"
proof -
  have "elapsed_usec (start_tv demo_env) (stop_tv demo_env) = 1002000"
    by (simp add: demo_env_def elapsed_usec_def)
  moreover have "fmt_f demo_env = fmt_usec"
    by (simp add: demo_env_def)
  ultimately show ?thesis by (simp only: fmt_usec_example)
qed

lemma demo_failure_elapsed:
  "fmt_f demo_env_failure
     (elapsed_usec (start_tv demo_env_failure) (stop_tv demo_env_failure)) = ''1.002000''"
proof -
  have "elapsed_usec (start_tv demo_env_failure) (stop_tv demo_env_failure) = 1002000"
    by (simp add: demo_env_failure_def elapsed_usec_def)
  moreover have "fmt_f demo_env_failure = fmt_usec"
    by (simp add: demo_env_failure_def)
  ultimately show ?thesis by (simp only: fmt_usec_example)
qed

lemma demo_count: "count_in_parallel 10 3 demo_env = Some (Inr 4)"
  by code_simp

lemma demo_failure_count: "count_in_parallel 10 3 demo_env_failure = Some (Inr 2)"
  by code_simp

lemma show_examples: "show_nat 2 = ''2''" "show_int 4 = ''4''" "show_int 2 = ''2''"
  by (simp_all add: show_int_def show_nat.simps digit_def)

lemma demo_lines:
  "lines_of (stdout_of (events (main 10 3 demo_env))) =
     [''2'', ''4 primes found'', ''took 1.002000 sec'']"
proof -
  have nl: "CHR ''\<newline>'' \<notin>
      set (fmt_f demo_env (elapsed_usec (start_tv demo_env) (stop_tv demo_env)))"
    unfolding demo_elapsed by simp
  have sz: "sizeof_short demo_env = 2" by (simp add: demo_env_def)
  show ?thesis
    unfolding main_lines [OF demo_count nl] demo_elapsed sz show_examples by simp
qed

lemma demo_failure_lines:
  "lines_of (stdout_of (events (main 10 3 demo_env_failure))) =
     [''2'', ''2 primes found'', ''took 1.002000 sec'']"
proof -
  have nl: "CHR ''\<newline>'' \<notin>
      set (fmt_f demo_env_failure
        (elapsed_usec (start_tv demo_env_failure) (stop_tv demo_env_failure)))"
    unfolding demo_failure_elapsed by simp
  have sz: "sizeof_short demo_env_failure = 2" by (simp add: demo_env_failure_def)
  show ?thesis
    unfolding main_lines [OF demo_failure_count nl] demo_failure_elapsed sz show_examples by simp
qed

lemma demo_enough: "enough_quanta 10 3 (schedule demo_env)"
  "enough_quanta 10 3 (schedule demo_env_failure)"
  unfolding enough_quanta_def by code_simp+

subsection \<open>The program as it is compiled\<close>

lemma source_constants_in_range:
  "0 < N_MACRO \<and> 0 < THREAD_COUNT \<and> N_MACRO + THREAD_COUNT \<le> INT_MAX + 1"
  by (simp add: N_MACRO_def THREAD_COUNT_def INT_MAX_def)

lemma source_program_count:
  assumes "\<forall>k < 8. created env k" and "enough_quanta N_MACRO THREAD_COUNT (schedule env)"
  shows "count_in_parallel N_MACRO THREAD_COUNT env = Some (Inr (naive_scan 1000000))"
proof -
  from assms(1) have c: "\<forall>k < nat THREAD_COUNT. created env k"
    by (simp add: THREAD_COUNT_def)
  then have "(\<forall>k < nat THREAD_COUNT. created env k) \<or> join_invalid_returns env" ..
  with source_constants_in_range assms(2)
  have "count_in_parallel N_MACRO THREAD_COUNT env =
      Some (Inr (count_started N_MACRO THREAD_COUNT (created env)))"
    by (intro count_in_parallel_enough) simp_all
  moreover have "count_started N_MACRO THREAD_COUNT (created env) = naive_scan N_MACRO"
    using c by (intro count_started_all_created) (simp add: THREAD_COUNT_def)
  ultimately show ?thesis by (simp add: N_MACRO_def)
qed

section \<open>The claims\<close>

subsection \<open>The primality predicate\<close>

text \<open>
  Claim C3.  The test that each worker applies to a candidate \<open>v\<close> (the flag of the
  \<open>for\<close> loop together with \<^verbatim>\<open>i > 1\<close>) is trial division: every \<open>v < 2\<close> is rejected;
  from 2 on, \<open>v\<close> is accepted exactly when no integer from 2 up to \<open>v/2\<close> (the integer
  division of C) divides it.  The scan stops at the first divisor: when \<open>d\<close> is the
  least divisor in that range the loop body runs \<open>d - 1\<close> times (for \<open>j = 2, ..., d\<close>),
  and when there is none it runs for every \<open>j\<close> from 2 to \<open>v/2\<close>.  In particular 0, 1 and
  18 are rejected and 2 and 17 are accepted.
\<close>

theorem isPrime_trial_division:
  "(v < 2 \<longrightarrow> \<not> isPrime v) \<and>
   (2 \<le> v \<longrightarrow> isPrime v = (\<forall>d. 2 \<le> d \<and> d \<le> c_div v 2 \<longrightarrow> \<not> d dvd v)) \<and>
   (\<forall>d. 2 \<le> d \<and> d \<le> c_div v 2 \<and> d dvd v \<and> (\<forall>e. 2 \<le> e \<and> e < d \<longrightarrow> \<not> e dvd v) \<longrightarrow>
        snd (trial_division v) = nat (d - 1)) \<and>
   ((\<forall>d. 2 \<le> d \<and> d \<le> c_div v 2 \<longrightarrow> \<not> d dvd v) \<longrightarrow>
        snd (trial_division v) = nat (c_div v 2 - 1)) \<and>
   \<not> isPrime 0 \<and> \<not> isPrime 1 \<and> isPrime 2 \<and> isPrime 17 \<and> \<not> isPrime 18"
proof (intro conjI)
  show "v < 2 \<longrightarrow> \<not> isPrime v"
    by (simp add: isPrime_less_2)
  show "2 \<le> v \<longrightarrow> isPrime v = (\<forall>d. 2 \<le> d \<and> d \<le> c_div v 2 \<longrightarrow> \<not> d dvd v)"
    by (simp add: isPrime_iff)
  show "\<forall>d. 2 \<le> d \<and> d \<le> c_div v 2 \<and> d dvd v \<and> (\<forall>e. 2 \<le> e \<and> e < d \<longrightarrow> \<not> e dvd v) \<longrightarrow>
          snd (trial_division v) = nat (d - 1)"
  proof (intro allI impI)
    fix d
    assume d: "2 \<le> d \<and> d \<le> c_div v 2 \<and> d dvd v \<and> (\<forall>e. 2 \<le> e \<and> e < d \<longrightarrow> \<not> e dvd v)"
    have v0: "0 \<le> v"
    proof (rule ccontr)
      assume "\<not> 0 \<le> v"
      then have "c_div v 2 \<le> 0" by (simp add: c_div_neg_2)
      with d show False by simp
    qed
    with d have "d \<le> v div 2" by (simp add: c_div_nonneg)
    with v0 d have "snd (for_loop v 2 0) = 0 + nat (d - 2 + 1)"
      by (intro for_loop_steps_hit) simp_all
    then show "snd (trial_division v) = nat (d - 1)"
      by (simp add: trial_division_def)
  qed
  show "(\<forall>d. 2 \<le> d \<and> d \<le> c_div v 2 \<longrightarrow> \<not> d dvd v) \<longrightarrow>
          snd (trial_division v) = nat (c_div v 2 - 1)"
  proof
    assume none: "\<forall>d. 2 \<le> d \<and> d \<le> c_div v 2 \<longrightarrow> \<not> d dvd v"
    show "snd (trial_division v) = nat (c_div v 2 - 1)"
    proof (cases "v < 2")
      case True
      then have "c_div v 2 \<le> 0"
        by (cases "v < 0") (simp_all add: c_div_neg_2 c_div_nonneg)
      with True show ?thesis
        by (simp add: trial_division_def for_loop_negative)
    next
      case False
      with none have "snd (for_loop v 2 0) = 0 + nat (v div 2 + 1 - 2)"
        by (intro for_loop_steps_miss) (simp_all add: c_div_nonneg)
      with False show ?thesis
        by (simp add: trial_division_def c_div_nonneg)
    qed
  qed
  show "\<not> isPrime 0" "\<not> isPrime 1"
    by (simp_all add: isPrime_less_2)
  show "isPrime 2" "isPrime 17" "\<not> isPrime 18"
    by (simp_all add: isPrime_def trial_division_def for_loop.simps c_div_def c_mod_def)
qed

theorem isPrime_trial_division_witness:
  "(2::int) \<le> 18 \<and> 2 \<le> c_div 18 2 \<and> (2::int) dvd 18 \<and> snd (trial_division 18) = 1 \<and>
   \<not> isPrime 18 \<and> (0::int) < 2 \<and> \<not> isPrime 0"
proof -
  have h: "2 \<le> (2::int) \<and> 2 \<le> c_div 18 2 \<and> (2::int) dvd 18 \<and>
      (\<forall>e. 2 \<le> e \<and> e < (2::int) \<longrightarrow> \<not> e dvd (18::int))"
    by (auto simp: c_div_def)
  from isPrime_trial_division [of 18]
  have "\<forall>d. 2 \<le> d \<and> d \<le> c_div 18 2 \<and> d dvd 18 \<and> (\<forall>e. 2 \<le> e \<and> e < d \<longrightarrow> \<not> e dvd 18) \<longrightarrow>
      snd (trial_division 18) = nat (d - 1)"
    by blast
  with h have "snd (trial_division 18) = nat (2 - 1)" by blast
  moreover from isPrime_trial_division [of 0] have "\<not> isPrime 0" "\<not> isPrime 18" by blast+
  ultimately show ?thesis using h by simp
qed

subsection \<open>The parallel count and the sequential scan\<close>

text \<open>
  Claim C1, as amended.  The claim is made for every positive \<open>N\<close> and \<open>T\<close>; in the C
  program both are \<open>int\<close>s and \<^verbatim>\<open>i += THREAD_COUNT\<close> overflows as soon as \<open>N + T\<close> exceeds
  \<open>2^31\<close>.  For positive \<open>N\<close> and \<open>T\<close> with \<open>N + T \<le> 2^31\<close> (the values of the source,
  1000000 and 8, are among them) and with every thread created: whatever the schedule,
  the sum computed after the joins is the count of the naive scan of \<open>[0, N)\<close>, unless a
  join never returns because the schedule stopped too early; and a schedule that gives
  each thread enough quanta makes every join return.
\<close>

theorem parallel_count_eq_naive_scan:
  assumes "0 < N" and "0 < T" and "N + T \<le> INT_MAX + 1" and "\<forall>k < nat T. created env k"
  shows "(count_in_parallel N T env = None \<or>
          count_in_parallel N T env = Some (Inr (naive_scan N))) \<and>
         (enough_quanta N T (schedule env) \<longrightarrow>
          count_in_parallel N T env = Some (Inr (naive_scan N)))"
proof -
  have all: "count_started N T (created env) = naive_scan N"
    using assms(2,4) by (rule count_started_all_created)
  from assms(4) have join: "(\<forall>k < nat T. created env k) \<or> join_invalid_returns env" ..
  from count_in_parallel_range [OF assms(1-3) join] all
  have "count_in_parallel N T env = None \<or>
      count_in_parallel N T env = Some (Inr (naive_scan N))"
    by (simp split: if_splits)
  moreover have "enough_quanta N T (schedule env) \<longrightarrow>
      count_in_parallel N T env = Some (Inr (naive_scan N))"
    using count_in_parallel_enough [OF assms(1-3) join] all by simp
  ultimately show ?thesis ..
qed

theorem parallel_count_eq_naive_scan_witness:
  "(0::int) < 10 \<and> (0::int) < 3 \<and> (10::int) + 3 \<le> INT_MAX + 1 \<and>
   created demo_env 0 \<and> created demo_env 1 \<and> created demo_env 2 \<and>
   enough_quanta 10 3 (schedule demo_env) \<and>
   count_in_parallel 10 3 demo_env = Some (Inr (naive_scan 10)) \<and> naive_scan 10 = 4"
proof -
  have c: "\<forall>k < nat 3. created demo_env k"
    by (simp add: demo_env_def all_created_def)
  have e: "enough_quanta 10 3 (schedule demo_env)"
    unfolding enough_quanta_def by code_simp
  have n: "naive_scan 10 = 4"
    by code_simp
  have r: "(10::int) + 3 \<le> INT_MAX + 1"
    by (simp add: INT_MAX_def)
  from parallel_count_eq_naive_scan [where N = 10 and T = 3 and env = demo_env, OF _ _ r c] e
  have "count_in_parallel 10 3 demo_env = Some (Inr (naive_scan 10))" by simp
  with c e n r show ?thesis by (simp add: demo_env_def all_created_def)
qed

text \<open>
  The claim as it is written fails for \<open>N = 2147483647\<close> and \<open>T = 2\<close>: both threads are
  created and get all the quanta they can use, thread 0 visits the even numbers up to
  2147483646, and its next \<^verbatim>\<open>i += THREAD_COUNT\<close> overflows.
\<close>

theorem parallel_count_overflow:
  "created overflow_env 0 \<and> created overflow_env 1 \<and>
   enough_quanta 2147483647 2 (schedule overflow_env) \<and>
   count_in_parallel 2147483647 2 overflow_env = Some (Inl SignedOverflow)"
proof -
  have "enough_quanta 2147483647 2 (schedule overflow_env)"
    by (simp add: enough_quanta_def overflow_env_def count_list_replicate)
  with overflow_run show ?thesis
    by (simp add: overflow_env_def all_created_def)
qed

subsection \<open>The partitions\<close>

text \<open>
  Claim C2, as amended.  The claim is made for every positive \<open>N\<close> and \<open>T\<close>; a worker
  whose \<^verbatim>\<open>i += THREAD_COUNT\<close> overflows does not return and has no partition.  For
  positive \<open>N\<close> and \<open>T\<close> with \<open>N + T \<le> 2^31\<close>: each of the \<open>T\<close> workers returns, and the
  indices its loop body has run on are the numbers \<open>k, k + T, k + 2T, ...\<close> below \<open>N\<close>, each
  once; the partitions of two different workers have no index in common, their union
  is \<open>[0, N)\<close>, and every integer of \<open>[0, N)\<close> is in the partition of exactly one worker.
\<close>

theorem partitions_disjoint_cover:
  assumes "0 < N" and "0 < T" and "N + T \<le> INT_MAX + 1"
  shows "\<exists>P. (\<forall>k < nat T.
                partition_of N T k = Some (P k) \<and> distinct (P k) \<and>
                set (P k) = {v. v < N \<and> (\<exists>m::nat. v = int k + int m * T)}) \<and>
             (\<forall>j < nat T. \<forall>k < nat T. j \<noteq> k \<longrightarrow> set (P j) \<inter> set (P k) = {}) \<and>
             (\<Union>k < nat T. set (P k)) = {0..<N} \<and>
             (\<forall>v. 0 \<le> v \<and> v < N \<longrightarrow> (\<exists>!k. k < nat T \<and> v \<in> set (P k)))"
proof -
  define P where "P k = (case partition_of N T k of None \<Rightarrow> [] | Some p \<Rightarrow> p)" for k
  have part: "\<And>k. k < nat T \<Longrightarrow>
      partition_of N T k = Some (P k) \<and> distinct (P k) \<and>
      set (P k) = {v. 0 \<le> v \<and> v < N \<and> v mod T = int k}"
  proof -
    fix k assume "k < nat T"
    from partition_of_set [OF assms this] obtain p where
      "partition_of N T k = Some p" "distinct p"
      "set p = {v. 0 \<le> v \<and> v < N \<and> v mod T = int k}"
      by blast
    then show "partition_of N T k = Some (P k) \<and> distinct (P k) \<and>
      set (P k) = {v. 0 \<le> v \<and> v < N \<and> v mod T = int k}"
      by (simp add: P_def)
  qed
  then have sets: "\<And>k. k < nat T \<Longrightarrow> set (P k) = {v. 0 \<le> v \<and> v < N \<and> v mod T = int k}"
    by blast
  have residue: "\<And>v. nat (v mod T) < nat T \<and> int (nat (v mod T)) = v mod T"
  proof -
    fix v
    from assms(2) have "0 \<le> v mod T" "v mod T < T" by simp_all
    then show "nat (v mod T) < nat T \<and> int (nat (v mod T)) = v mod T" by simp
  qed
  have one: "\<forall>k < nat T.
      partition_of N T k = Some (P k) \<and> distinct (P k) \<and>
      set (P k) = {v. v < N \<and> (\<exists>m::nat. v = int k + int m * T)}"
  proof (intro allI impI)
    fix k assume k: "k < nat T"
    then have "int k < T" by simp
    with assms(2) have "{v. v < N \<and> (\<exists>m::nat. v = int k + int m * T)} =
        {v. 0 \<le> v \<and> v < N \<and> v mod T = int k}"
      by (rule progression_set)
    with part [OF k]
    show "partition_of N T k = Some (P k) \<and> distinct (P k) \<and>
      set (P k) = {v. v < N \<and> (\<exists>m::nat. v = int k + int m * T)}"
      by simp
  qed
  have two: "\<forall>j < nat T. \<forall>k < nat T. j \<noteq> k \<longrightarrow> set (P j) \<inter> set (P k) = {}"
    using sets by auto
  have three: "(\<Union>k < nat T. set (P k)) = {0..<N}"
  proof (intro equalityI subsetI)
    fix v assume "v \<in> (\<Union>k < nat T. set (P k))"
    with sets show "v \<in> {0..<N}" by auto
  next
    fix v assume "v \<in> {0..<N}"
    with sets [of "nat (v mod T)"] residue [of v]
    have "nat (v mod T) \<in> {..<nat T}" "v \<in> set (P (nat (v mod T)))"
      by simp_all
    then show "v \<in> (\<Union>k < nat T. set (P k))" by blast
  qed
  have four: "\<forall>v. 0 \<le> v \<and> v < N \<longrightarrow> (\<exists>!k. k < nat T \<and> v \<in> set (P k))"
  proof (intro allI impI)
    fix v assume v: "0 \<le> v \<and> v < N"
    show "\<exists>!k. k < nat T \<and> v \<in> set (P k)"
    proof (rule ex1I [of _ "nat (v mod T)"])
      from v sets [of "nat (v mod T)"] residue [of v]
      show "nat (v mod T) < nat T \<and> v \<in> set (P (nat (v mod T)))" by simp
    next
      fix k assume "k < nat T \<and> v \<in> set (P k)"
      with sets [of k] have "v mod T = int k" by simp
      then show "k = nat (v mod T)" by simp
    qed
  qed
  from one two three four show ?thesis by blast
qed

theorem partitions_disjoint_cover_witness:
  "(0::int) < 10 \<and> (0::int) < 3 \<and> (10::int) + 3 \<le> INT_MAX + 1 \<and>
   partition_of 10 3 0 = Some [0, 3, 6, 9] \<and> partition_of 10 3 1 = Some [1, 4, 7] \<and>
   partition_of 10 3 2 = Some [2, 5, 8] \<and>
   set [0, 3, 6, 9] \<inter> set [1, 4, 7] = ({} :: int set) \<and>
   set [0, 3, 6, 9] \<union> set [1, 4, 7] \<union> set [2, 5, 8] = {0..<(10::int)}"
proof -
  have n: "(0::int) < 10" and t: "(0::int) < 3" and r: "(10::int) + 3 \<le> INT_MAX + 1"
    by (simp_all add: INT_MAX_def)
  have p: "partition_of 10 3 0 = Some [0, 3, 6, 9]" "partition_of 10 3 1 = Some [1, 4, 7]"
    "partition_of 10 3 2 = Some [2, 5, 8]"
    by code_simp+
  from partitions_disjoint_cover [OF n t r] obtain P where
    P: "(\<forall>k < nat 3. partition_of 10 3 k = Some (P k) \<and> distinct (P k) \<and>
          set (P k) = {v. v < 10 \<and> (\<exists>m::nat. v = int k + int m * 3)}) \<and>
       (\<forall>j < nat 3. \<forall>k < nat 3. j \<noteq> k \<longrightarrow> set (P j) \<inter> set (P k) = {}) \<and>
       (\<Union>k < nat 3. set (P k)) = {0..<10} \<and>
       (\<forall>v. 0 \<le> v \<and> v < 10 \<longrightarrow> (\<exists>!k. k < nat 3 \<and> v \<in> set (P k)))"
    ..
  note P1 = P [THEN conjunct1, rule_format, THEN conjunct1]
  have "partition_of 10 3 0 = Some (P 0)" "partition_of 10 3 1 = Some (P 1)"
    "partition_of 10 3 2 = Some (P 2)"
    by (rule P1, simp)+
  with p have e: "P 0 = [0, 3, 6, 9]" "P 1 = [1, 4, 7]" "P 2 = [2, 5, 8]"
    by simp_all
  have "set (P 0) \<inter> set (P 1) = {}"
    by (rule P [THEN conjunct2, THEN conjunct1, rule_format]) simp_all
  then have d: "set [0, 3, 6, 9] \<inter> set [1, 4, 7] = ({} :: int set)"
    unfolding e .
  have three: "{..<nat 3} = {0, 1, 2}" by auto
  have "(\<Union>k < nat 3. set (P k)) = {0..<10}"
    by (rule P [THEN conjunct2, THEN conjunct2, THEN conjunct1])
  then have "set (P 0) \<union> (set (P 1) \<union> set (P 2)) = {0..<10}"
    unfolding three by simp
  then have u: "set [0, 3, 6, 9] \<union> set [1, 4, 7] \<union> set [2, 5, 8] = {0..<(10::int)}"
    unfolding e Un_assoc .
  from n t r p d u show ?thesis by (intro conjI)
qed

text \<open>
  The claim as it is written fails for \<open>N = 2\<close> and \<open>T = 2147483647\<close>: the worker of
  partition 1 has run its loop body on 1 when its \<^verbatim>\<open>i += THREAD_COUNT\<close> overflows; it does
  not return, and no partition is the index set it iterates.
\<close>

theorem partition_overflow:
  "calculate_primes 2 2147483647 (int 1) (replicate (nat 2147483647) 0) =
     Some (\<lparr>idx = 1, thread_number = 1, visited = [1], status = UB SignedOverflow\<rparr>,
           replicate (nat 2147483647) 0) \<and>
   partition_of 2 2147483647 1 = None"
proof -
  have w: "calculate_primes 2 2147483647 (int 1) (replicate (nat 2147483647) 0) =
     Some (\<lparr>idx = 1, thread_number = 1, visited = [1], status = UB SignedOverflow\<rparr>,
           replicate (nat 2147483647) 0)"
    using overflow_worker [of "replicate (nat 2147483647) 0"] by simp
  then have "partition_of 2 2147483647 1 = None"
    unfolding partition_of_def by simp
  with w show ?thesis ..
qed

subsection \<open>More threads than numbers\<close>

text \<open>
  Claim C6, as amended.  For positive \<open>N\<close> and \<open>T\<close> with \<open>N + T \<le> 2^31\<close> and with every worker
  started (in particular in the degenerate case \<open>T > N\<close> within that range): a worker
  whose number \<open>k\<close> is at least \<open>N\<close> returns at once, its loop body never runs and the
  array of counters is as before; in every state of the parallel run its counter is
  0 and it has visited nothing; no undefined behaviour arises: whatever the schedule,
  the sum computed after the joins is the count of the naive scan of \<open>[0, N)\<close> unless a
  join never returns, and every join returns when the schedule gives each thread
  enough quanta.  For \<open>N = 1\<close> that count is 0.
\<close>

theorem degenerate_more_threads_than_numbers:
  assumes "0 < N" and "0 < T" and "N + T \<le> INT_MAX + 1" and "\<forall>k < nat T. created env k"
  shows "(\<forall>k < nat T. N \<le> int k \<longrightarrow>
            calculate_primes N T (int k) pc =
              Some ((start_thread (int k))\<lparr>status := Returned\<rparr>, pc) \<and>
            visited ((start_thread (int k))\<lparr>status := Returned\<rparr>) = []) \<and>
         (\<forall>k < nat T. N \<le> int k \<longrightarrow>
            prime_count (run_schedule N T sched (initial_world T (created env))) ! k = 0 \<and>
            (\<forall>t. t_array (run_schedule N T sched (initial_world T (created env))) ! k = Some t
                 \<longrightarrow> visited t = [])) \<and>
         (count_in_parallel N T env = None \<or>
          count_in_parallel N T env = Some (Inr (naive_scan N))) \<and>
         (enough_quanta N T (schedule env) \<longrightarrow>
          count_in_parallel N T env = Some (Inr (naive_scan N))) \<and>
         (N = 1 \<longrightarrow> naive_scan N = 0)"
proof -
  let ?w = "run_schedule N T sched (initial_world T (created env))"
  from assms(2,3) have NI: "N \<le> INT_MAX" by simp
  have one: "\<forall>k < nat T. N \<le> int k \<longrightarrow>
      calculate_primes N T (int k) pc = Some ((start_thread (int k))\<lparr>status := Returned\<rparr>, pc) \<and>
      visited ((start_thread (int k))\<lparr>status := Returned\<rparr>) = []"
    by (simp add: calculate_primes_def while_loop.simps start_thread_def)
  have inv: "world_inv N T (created env) ?w"
    using initial_world_inv assms(2) NI by (rule run_schedule_inv)
  have noub: "\<forall>t e. Some t \<in> set (t_array ?w) \<longrightarrow> status t \<noteq> UB e"
    using inv assms(3,1,2) by (rule world_no_UB)
  have two: "\<forall>k < nat T. N \<le> int k \<longrightarrow>
      prime_count ?w ! k = 0 \<and> (\<forall>t. t_array ?w ! k = Some t \<longrightarrow> visited t = [])"
  proof (intro allI impI)
    fix k assume k: "k < nat T" and big: "N \<le> int k"
    from world_counter [OF inv k] assms(4) k obtain t where
      t: "t_array ?w ! k = Some t" "thread_inv N T k t (prime_count ?w ! k)"
      by auto
    from t(2) big have empty: "visited t = []" by (rule empty_partition)
    from inv k have "k < length (t_array ?w)" by (simp add: world_inv_def)
    with t(1) have "Some t \<in> set (t_array ?w)" by (metis nth_mem)
    with noub have "\<forall>e. status t \<noteq> UB e" by blast
    with t(2) empty have "prime_count ?w ! k = 0"
      by (cases "status t") (simp_all add: thread_inv_def count_primes_def)
    with t(1) empty show "prime_count ?w ! k = 0 \<and> (\<forall>t. t_array ?w ! k = Some t \<longrightarrow> visited t = [])"
      by simp
  qed
  have all: "count_started N T (created env) = naive_scan N"
    using assms(2,4) by (rule count_started_all_created)
  from assms(4) have join: "(\<forall>k < nat T. created env k) \<or> join_invalid_returns env" ..
  from count_in_parallel_range [OF assms(1-3) join] all
  have three: "count_in_parallel N T env = None \<or>
      count_in_parallel N T env = Some (Inr (naive_scan N))"
    by (simp split: if_splits)
  have four: "enough_quanta N T (schedule env) \<longrightarrow>
      count_in_parallel N T env = Some (Inr (naive_scan N))"
    using count_in_parallel_enough [OF assms(1-3) join] all by simp
  have five: "N = 1 \<longrightarrow> naive_scan N = 0"
    by (simp add: naive_scan_def count_primes_def isPrime_less_2)
  from one two three four five show ?thesis by blast
qed

theorem degenerate_more_threads_than_numbers_witness:
  "(0::int) < 1 \<and> (0::int) < 4 \<and> (1::int) + 4 \<le> INT_MAX + 1 \<and>
   created demo_env_4 0 \<and> created demo_env_4 1 \<and> created demo_env_4 2 \<and> created demo_env_4 3 \<and>
   (1::int) \<le> int 2 \<and> enough_quanta 1 4 (schedule demo_env_4) \<and>
   calculate_primes 1 4 (int 2) [0, 0, 0, 0] =
     Some ((start_thread (int 2))\<lparr>status := Returned\<rparr>, [0, 0, 0, 0]) \<and>
   count_in_parallel 1 4 demo_env_4 = Some (Inr (naive_scan 1)) \<and> naive_scan 1 = 0"
proof -
  have c: "\<forall>k < nat 4. created demo_env_4 k"
    by (simp add: demo_env_4_def all_created_def)
  have e: "enough_quanta 1 4 (schedule demo_env_4)"
    unfolding enough_quanta_def by code_simp
  have r: "(1::int) + 4 \<le> INT_MAX + 1" "(0::int) < 1" "(0::int) < 4"
    by (simp_all add: INT_MAX_def)
  note deg = degenerate_more_threads_than_numbers
    [where N = 1 and T = 4 and env = demo_env_4 and pc = "[0, 0, 0, 0]" and sched = "[]",
     OF r(2) r(3) r(1) c]
  have "\<forall>k < nat 4. (1::int) \<le> int k \<longrightarrow>
      calculate_primes 1 4 (int k) [0, 0, 0, 0] =
        Some ((start_thread (int k))\<lparr>status := Returned\<rparr>, [0, 0, 0, 0]) \<and>
      visited ((start_thread (int k))\<lparr>status := Returned\<rparr>) = []"
    by (rule deg [THEN conjunct1])
  from this [rule_format, of 2]
  have w: "calculate_primes 1 4 (int 2) [0, 0, 0, 0] =
      Some ((start_thread (int 2))\<lparr>status := Returned\<rparr>, [0, 0, 0, 0])"
    by simp
  have "enough_quanta 1 4 (schedule demo_env_4) \<longrightarrow>
      count_in_parallel 1 4 demo_env_4 = Some (Inr (naive_scan 1))"
    by (rule deg [THEN conjunct2, THEN conjunct2, THEN conjunct2, THEN conjunct1])
  with e have t: "count_in_parallel 1 4 demo_env_4 = Some (Inr (naive_scan 1))" by simp
  have "(1::int) = 1 \<longrightarrow> naive_scan 1 = 0"
    by (rule deg [THEN conjunct2, THEN conjunct2, THEN conjunct2, THEN conjunct2])
  then have n: "naive_scan 1 = 0" by simp
  from c have c4: "created demo_env_4 0 \<and> created demo_env_4 1 \<and> created demo_env_4 2 \<and>
      created demo_env_4 3"
    by simp
  from r c4 e w t n show ?thesis by simp
qed

text \<open>
  The claim as it is written fails for \<open>N = 2\<close> and \<open>T = 2147483647\<close>: the worker of
  partition 1 visits 1, and its \<^verbatim>\<open>i += THREAD_COUNT\<close> overflows.
\<close>

theorem degenerate_overflow:
  "(2::int) < 2147483647 \<and>
   calculate_primes 2 2147483647 1 (prime_count (initial_world 2147483647 all_created)) =
     Some (\<lparr>idx = 1, thread_number = 1, visited = [1], status = UB SignedOverflow\<rparr>,
           prime_count (initial_world 2147483647 all_created))"
  using overflow_worker [of "prime_count (initial_world 2147483647 all_created)"] by simp

subsection \<open>Each worker writes its own counter only\<close>

text \<open>
  Claim C7.  The worker of partition \<open>k\<close> changes no slot of \<open>prime_count\<close> but its own:
  run on its own from any contents of the array it returns (for \<open>T > 0\<close>), the array
  keeps its length and every slot \<open>j \<noteq> k\<close> holds what it held before; and in the
  parallel phase, in any state the threads can reach, a quantum of thread \<open>k\<close> leaves
  every slot \<open>j \<noteq> k\<close> as it was.
\<close>

theorem worker_writes_own_slot_only:
  assumes "0 < T"
  shows "(\<exists>t pc'. calculate_primes N T (int k) pc = Some (t, pc') \<and>
            length pc' = length pc \<and> (\<forall>j. j \<noteq> k \<longrightarrow> pc' ! j = pc ! j)) \<and>
         (\<forall>j. j \<noteq> k \<longrightarrow>
            prime_count (sched_step N T k (run_schedule N T sched (initial_world T ok))) ! j =
            prime_count (run_schedule N T sched (initial_world T ok)) ! j)"
proof
  from calculate_primes_frame [OF assms, where N = N and k = k and pc = pc]
  show "\<exists>t pc'. calculate_primes N T (int k) pc = Some (t, pc') \<and>
      length pc' = length pc \<and> (\<forall>j. j \<noteq> k \<longrightarrow> pc' ! j = pc ! j)"
    by blast
next
  have "slots_ok (run_schedule N T sched (initial_world T ok))"
    using initial_slots_ok by (rule run_schedule_slots_ok)
  then show "\<forall>j. j \<noteq> k \<longrightarrow>
      prime_count (sched_step N T k (run_schedule N T sched (initial_world T ok))) ! j =
      prime_count (run_schedule N T sched (initial_world T ok)) ! j"
    by (simp add: sched_step_frame)
qed

theorem worker_writes_own_slot_only_witness:
  "(0::int) < 3 \<and> (1::nat) \<noteq> 0 \<and>
   calculate_primes 10 3 (int 0) [5, 6, 7] =
     Some (\<lparr>idx = 12, thread_number = 0, visited = [0, 3, 6, 9], status = Returned\<rparr>, [6, 6, 7]) \<and>
   prime_count (sched_step 10 3 0 (run_schedule 10 3 [1, 0, 2, 0] (initial_world 3 all_created))) ! 1 =
   prime_count (run_schedule 10 3 [1, 0, 2, 0] (initial_world 3 all_created)) ! 1"
proof -
  have t: "(0::int) < 3" by simp
  note frame = worker_writes_own_slot_only
    [where N = 10 and T = 3 and k = 0 and pc = "[5, 6, 7]" and sched = "[1, 0, 2, 0]"
       and ok = all_created, OF t]
  have "\<forall>j. j \<noteq> 0 \<longrightarrow>
      prime_count (sched_step 10 3 0 (run_schedule 10 3 [1, 0, 2, 0] (initial_world 3 all_created))) ! j =
      prime_count (run_schedule 10 3 [1, 0, 2, 0] (initial_world 3 all_created)) ! j"
    by (rule frame [THEN conjunct2])
  from this [rule_format, of 1]
  have s: "prime_count (sched_step 10 3 0 (run_schedule 10 3 [1, 0, 2, 0] (initial_world 3 all_created))) ! 1 =
      prime_count (run_schedule 10 3 [1, 0, 2, 0] (initial_world 3 all_created)) ! 1"
    by simp
  have c: "calculate_primes 10 3 (int 0) [5, 6, 7] =
      Some (\<lparr>idx = 12, thread_number = 0, visited = [0, 3, 6, 9], status = Returned\<rparr>, [6, 6, 7])"
    by code_simp
  from s c show ?thesis by simp
qed

subsection \<open>The same count on every run\<close>

text \<open>
  Claim C8, as amended.  The claim is made for any two runs with the same \<open>N\<close> and \<open>T\<close>;
  a run in which a worker could not be started still ends with exit status 0 and
  prints the count of the others, so two runs can differ.  Two runs in which the same
  workers were started (in a normal run: all of them) and that both reach the sum
  print the same count, whatever their schedules, their clocks and the rest of their
  environments: the count is the number of primes in the partitions of the workers
  that were started, a value that depends on \<open>N\<close>, \<open>T\<close> and that set of workers only; with
  all of them started it is the count of the naive scan.
\<close>

theorem count_is_deterministic:
  assumes "0 < T" and "N \<le> INT_MAX"
    and "\<forall>k < nat T. created env1 k = created env2 k"
    and "count_in_parallel N T env1 = Some (Inr c1)"
    and "count_in_parallel N T env2 = Some (Inr c2)"
  shows "c1 = c2 \<and>
         c1 = count_started N T (created env1) \<and>
         ((\<forall>k < nat T. created env1 k) \<longrightarrow> c1 = naive_scan N) \<and>
         Printf (show_int c1 @ '' primes found\<newline>'') \<in> set (events (main N T env1)) \<and>
         Printf (show_int c1 @ '' primes found\<newline>'') \<in> set (events (main N T env2))"
proof -
  have c1: "c1 = count_started N T (created env1)"
    using assms(1,2,4) by (rule count_in_parallel_Inr)
  have "c2 = count_started N T (created env2)"
    using assms(1,2,5) by (rule count_in_parallel_Inr)
  with c1 count_started_cong [OF assms(1,3), where N = N]
  have eq: "c1 = c2" by simp
  have all: "(\<forall>k < nat T. created env1 k) \<longrightarrow> c1 = naive_scan N"
    using c1 count_started_all_created [OF assms(1), where ok = "created env1" and N = N]
    by simp
  from assms(4)
  have p1: "Printf (show_int c1 @ '' primes found\<newline>'') \<in> set (events (main N T env1))"
    by (simp add: main_of_count)
  from assms(5) eq
  have p2: "Printf (show_int c1 @ '' primes found\<newline>'') \<in> set (events (main N T env2))"
    by (simp add: main_of_count)
  from eq c1 all p1 p2 show ?thesis by (intro conjI)
qed

theorem count_is_deterministic_witness:
  "(0::int) < 3 \<and> (10::int) \<le> INT_MAX \<and>
   created demo_env 0 = created demo_env_sequential 0 \<and>
   created demo_env 1 = created demo_env_sequential 1 \<and>
   created demo_env 2 = created demo_env_sequential 2 \<and>
   schedule demo_env \<noteq> schedule demo_env_sequential \<and>
   count_in_parallel 10 3 demo_env = Some (Inr 4) \<and>
   count_in_parallel 10 3 demo_env_sequential = Some (Inr 4) \<and>
   (4::int) = count_started 10 3 (created demo_env) \<and>
   Printf (show_int 4 @ '' primes found\<newline>'') \<in> set (events (main 10 3 demo_env_sequential))"
proof -
  have t: "(0::int) < 3" and r: "(10::int) \<le> INT_MAX"
    by (simp_all add: INT_MAX_def)
  have c: "\<forall>k < nat 3. created demo_env k = created demo_env_sequential k"
    by (simp add: demo_env_def demo_env_sequential_def)
  have b: "count_in_parallel 10 3 demo_env_sequential = Some (Inr 4)"
    by code_simp
  have d: "schedule demo_env \<noteq> schedule demo_env_sequential"
    by code_simp
  note det = count_is_deterministic [OF t r c demo_count b]
  have p: "Printf (show_int 4 @ '' primes found\<newline>'') \<in>
      set (events (main 10 3 demo_env_sequential))"
    by (rule det [THEN conjunct2, THEN conjunct2, THEN conjunct2, THEN conjunct2])
  have s: "(4::int) = count_started 10 3 (created demo_env)"
    by (rule det [THEN conjunct2, THEN conjunct1])
  from c have c3: "created demo_env 0 = created demo_env_sequential 0"
    "created demo_env 1 = created demo_env_sequential 1"
    "created demo_env 2 = created demo_env_sequential 2"
    by simp_all
  from t r c3 d demo_count b s p show ?thesis by (intro conjI)
qed

text \<open>
  The claim as it is written fails on two runs of the examples, both with \<open>N = 10\<close> and
  \<open>T = 3\<close> and both ending with exit status 0: with every worker started the count is
  4, with the worker of slot 2 not started it is 2.
\<close>

theorem count_differs_when_a_worker_fails:
  "outcome (main 10 3 demo_env) = Exit 0 \<and>
   outcome (main 10 3 demo_env_failure) = Exit 0 \<and>
   count_in_parallel 10 3 demo_env = Some (Inr 4) \<and>
   count_in_parallel 10 3 demo_env_failure = Some (Inr 2)"
  using demo_count demo_failure_count
  by (simp add: main_of_count [OF demo_count] main_of_count [OF demo_failure_count])

subsection \<open>Termination\<close>

text \<open>
  Claim C9, as amended.  The claim is made without a bound on \<open>N\<close> and \<open>T\<close>; a worker whose
  \<^verbatim>\<open>i += THREAD_COUNT\<close> overflows does not return.  For positive \<open>N\<close> and \<open>T\<close> with
  \<open>N + T \<le> 2^31\<close> (as in the source) and every partition \<open>k\<close> with \<open>0 \<le> k < T\<close>: the worker,
  started as \<open>main\<close> starts it, returns, after at most \<open>\<lceil>N / T\<rceil>\<close> runs of its loop body
  and none when \<open>k \<ge> N\<close>; for each candidate \<open>v\<close> the inner loop runs at most \<open>v/2 - 1\<close>
  times (no time when \<open>v/2 < 2\<close>); and when every worker was started and the schedule
  gives each thread \<open>\<lceil>N / T\<rceil> + 1\<close> quanta, every thread returns, every join returns, the
  sum is computed and \<open>main\<close> ends with exit status 0.
\<close>

theorem computation_terminates:
  assumes "0 < N" and "0 < T" and "N + T \<le> INT_MAX + 1" and "k < nat T"
  shows "(\<exists>t pc'. calculate_primes N T (int k) (replicate (nat T) 0) = Some (t, pc') \<and>
            status t = Returned \<and>
            length (visited t) \<le> nat ((N + T - 1) div T) \<and>
            (N \<le> int k \<longrightarrow> visited t = [])) \<and>
         (\<forall>v. snd (trial_division v) \<le> nat (c_div v 2 - 1)) \<and>
         ((\<forall>j < nat T. created env j) \<and> enough_quanta N T (schedule env) \<longrightarrow>
            (\<forall>t. Some t \<in> set (t_array (run_schedule N T (schedule env)
                                  (initial_world T (created env)))) \<longrightarrow>
                 status t = Returned) \<and>
            count_in_parallel N T env = Some (Inr (naive_scan N)) \<and>
            outcome (main N T env) = Exit 0)"
proof -
  let ?pc = "replicate (nat T) (0::int)"
  from calculate_primes_returns [OF assms] obtain t pc' where
    t: "calculate_primes N T (int k) ?pc = Some (t, pc')" "status t = Returned"
    by blast
  from calculate_primes_iterations [OF assms(2), where N = N and k = k and pc = ?pc]
  obtain t' pc'' where
    t': "calculate_primes N T (int k) ?pc = Some (t', pc'')"
      "length (visited t') \<le> nat ((N + T - 1) div T)"
      "N \<le> int k \<longrightarrow> visited t' = [] \<and> pc'' = ?pc"
    by blast
  from t(1) t'(1) have "t' = t" by simp
  with t t'(2,3)
  have one: "\<exists>t pc'. calculate_primes N T (int k) ?pc = Some (t, pc') \<and>
      status t = Returned \<and> length (visited t) \<le> nat ((N + T - 1) div T) \<and>
      (N \<le> int k \<longrightarrow> visited t = [])"
    by blast
  have two: "\<forall>v. snd (trial_division v) \<le> nat (c_div v 2 - 1)"
  proof
    fix v
    from for_loop_steps_le [of v 2 0] show "snd (trial_division v) \<le> nat (c_div v 2 - 1)"
      by (simp add: trial_division_def)
  qed
  have three: "(\<forall>j < nat T. created env j) \<and> enough_quanta N T (schedule env) \<longrightarrow>
      (\<forall>t. Some t \<in> set (t_array (run_schedule N T (schedule env)
                            (initial_world T (created env)))) \<longrightarrow>
           status t = Returned) \<and>
      count_in_parallel N T env = Some (Inr (naive_scan N)) \<and>
      outcome (main N T env) = Exit 0"
  proof
    assume a: "(\<forall>j < nat T. created env j) \<and> enough_quanta N T (schedule env)"
    let ?w = "run_schedule N T (schedule env) (initial_world T (created env))"
    from a have cr: "\<forall>j < nat T. created env j" and fair: "enough_quanta N T (schedule env)"
      by blast+
    from assms(2,3) have NI: "N \<le> INT_MAX" by simp
    have inv: "world_inv N T (created env) ?w"
      using initial_world_inv assms(2) NI by (rule run_schedule_inv)
    have noub: "\<forall>t e. Some t \<in> set (t_array ?w) \<longrightarrow> status t \<noteq> UB e"
      using inv assms(3,1,2) by (rule world_no_UB)
    have norun: "\<forall>t. Some t \<in> set (t_array ?w) \<longrightarrow> status t \<noteq> Running"
      using assms(2) fair by (rule all_quanta_used)
    have ret: "\<forall>t. Some t \<in> set (t_array ?w) \<longrightarrow> status t = Returned"
    proof (intro allI impI)
      fix t assume "Some t \<in> set (t_array ?w)"
      with noub norun have "status t \<noteq> Running" "\<forall>e. status t \<noteq> UB e" by blast+
      then show "status t = Returned" by (cases "status t") simp_all
    qed
    from cr have join: "(\<forall>k < nat T. created env k) \<or> join_invalid_returns env" ..
    have "count_started N T (created env) = naive_scan N"
      using assms(2) cr by (rule count_started_all_created)
    with count_in_parallel_enough [OF assms(1-3) join fair]
    have c: "count_in_parallel N T env = Some (Inr (naive_scan N))" by simp
    then have "outcome (main N T env) = Exit 0" by (simp add: main_of_count)
    with ret c show "(\<forall>t. Some t \<in> set (t_array ?w) \<longrightarrow> status t = Returned) \<and>
      count_in_parallel N T env = Some (Inr (naive_scan N)) \<and>
      outcome (main N T env) = Exit 0"
      by (intro conjI)
  qed
  from one two three show ?thesis by (intro conjI)
qed

theorem computation_terminates_witness:
  "(0::int) < 10 \<and> (0::int) < 3 \<and> (10::int) + 3 \<le> INT_MAX + 1 \<and> (0::nat) < nat 3 \<and>
   created demo_env 0 \<and> created demo_env 1 \<and> created demo_env 2 \<and>
   enough_quanta 10 3 (schedule demo_env) \<and>
   calculate_primes 10 3 (int 0) (replicate (nat 3) 0) =
     Some (\<lparr>idx = 12, thread_number = 0, visited = [0, 3, 6, 9], status = Returned\<rparr>, [1, 0, 0]) \<and>
   length [0::int, 3, 6, 9] \<le> nat ((10 + 3 - 1) div 3) \<and>
   snd (trial_division 17) \<le> nat (c_div 17 2 - 1) \<and>
   outcome (main 10 3 demo_env) = Exit 0"
proof -
  have n: "(0::int) < 10" and t: "(0::int) < 3" and r: "(10::int) + 3 \<le> INT_MAX + 1"
    and k: "(0::nat) < nat 3"
    by (simp_all add: INT_MAX_def)
  note stops = computation_terminates [where env = demo_env, OF n t r k]
  have "\<forall>v. snd (trial_division v) \<le> nat (c_div v 2 - 1)"
    by (rule stops [THEN conjunct2, THEN conjunct1])
  then have i: "snd (trial_division 17) \<le> nat (c_div 17 2 - 1)" ..
  have cr: "\<forall>j < nat 3. created demo_env j"
    by (simp add: demo_env_def all_created_def)
  with demo_enough(1) stops [THEN conjunct2, THEN conjunct2]
  have o: "outcome (main 10 3 demo_env) = Exit 0" by blast
  have w: "calculate_primes 10 3 (int 0) (replicate (nat 3) 0) =
      Some (\<lparr>idx = 12, thread_number = 0, visited = [0, 3, 6, 9], status = Returned\<rparr>, [1, 0, 0])"
    by code_simp
  from cr have c3: "created demo_env 0" "created demo_env 1" "created demo_env 2"
    by simp_all
  have l: "length [0::int, 3, 6, 9] \<le> nat ((10 + 3 - 1) div 3)" by simp
  from n t r k c3 demo_enough(1) w l i o show ?thesis by (intro conjI)
qed

text \<open>
  The claim as it is written fails for \<open>N = 2147483647\<close> and \<open>T = 2\<close>: both workers are
  started and get all the quanta they can use, the \<^verbatim>\<open>i += THREAD_COUNT\<close> of worker 0
  overflows after the index 2147483646, the worker does not return and the run of
  \<open>main\<close> is undefined.
\<close>

theorem computation_overflow:
  "created overflow_env 0 \<and> created overflow_env 1 \<and>
   enough_quanta 2147483647 2 (schedule overflow_env) \<and>
   outcome (main 2147483647 2 overflow_env) = Undefined_behaviour SignedOverflow"
proof -
  have e: "enough_quanta 2147483647 2 (schedule overflow_env)"
    by (simp add: enough_quanta_def overflow_env_def count_list_replicate)
  have o: "outcome (main 2147483647 2 overflow_env) = Undefined_behaviour SignedOverflow"
    unfolding main_def overflow_run by simp
  have c: "created overflow_env 0" "created overflow_env 1"
    by (simp_all add: overflow_env_def all_created_def)
  from c e o show ?thesis by (intro conjI)
qed

subsection \<open>Standard output\<close>

text \<open>
  Claim C10.  On every run, whether or not it reaches its end, the first call of
  \<open>main\<close> is the \<open>printf\<close> of \<^verbatim>\<open>sizeof(short)\<close> in decimal followed by a newline; it comes
  before the first reading of the clock and before the calls of \<^verbatim>\<open>pthread_create\<close>, and
  its text is the first line of standard output.  A run that reaches its end with
  exit status 0 has written three lines in all (the rendering of the elapsed time
  having no newline in it).
\<close>

theorem first_line_is_sizeof_short:
  "(\<exists>rest. events (main N T env) =
      Printf (show_nat (sizeof_short env) @ ''\<newline>'') # Gettimeofday #
      map Pthread_create [0..<nat T] @ rest) \<and>
   (\<exists>ls. lines_of (stdout_of (events (main N T env))) = show_nat (sizeof_short env) # ls) \<and>
   (outcome (main N T env) = Exit 0 \<and>
    CHR ''\<newline>'' \<notin> set (fmt_f env (elapsed_usec (start_tv env) (stop_tv env))) \<longrightarrow>
      length (lines_of (stdout_of (events (main N T env)))) = 3)"
proof (intro conjI)
  show "\<exists>rest. events (main N T env) =
      Printf (show_nat (sizeof_short env) @ ''\<newline>'') # Gettimeofday #
      map Pthread_create [0..<nat T] @ rest"
    by (rule main_first_events)
  show "\<exists>ls. lines_of (stdout_of (events (main N T env))) = show_nat (sizeof_short env) # ls"
  proof (cases "outcome (main N T env) = Exit 0")
    case False
    then have "lines_of (stdout_of (events (main N T env))) = [show_nat (sizeof_short env)]"
      by (simp add: main_stdout_short lines_of_one show_nat_no_newline)
    then show ?thesis by simp
  next
    case True
    from main_exit [OF this] obtain c where "count_in_parallel N T env = Some (Inr c)"
      by blast
    from main_stdout [OF this]
    have "lines_of (stdout_of (events (main N T env))) =
        split_lines [] (show_nat (sizeof_short env) @ CHR ''\<newline>'' #
          (show_int c @ '' primes found'') @ ''\<newline>'' @
          (''took '' @ fmt_f env (elapsed_usec (start_tv env) (stop_tv env)) @ '' sec'') @
          ''\<newline>'')"
      by (simp add: lines_of_def)
    also have "\<dots> = ([] @ show_nat (sizeof_short env)) #
        split_lines [] ((show_int c @ '' primes found'') @ ''\<newline>'' @
          (''took '' @ fmt_f env (elapsed_usec (start_tv env) (stop_tv env)) @ '' sec'') @
          ''\<newline>'')"
      by (rule split_lines_line) (rule show_nat_no_newline)
    finally show ?thesis by simp
  qed
  show "outcome (main N T env) = Exit 0 \<and>
    CHR ''\<newline>'' \<notin> set (fmt_f env (elapsed_usec (start_tv env) (stop_tv env))) \<longrightarrow>
      length (lines_of (stdout_of (events (main N T env)))) = 3"
  proof
    assume a: "outcome (main N T env) = Exit 0 \<and>
      CHR ''\<newline>'' \<notin> set (fmt_f env (elapsed_usec (start_tv env) (stop_tv env)))"
    then obtain c where c: "count_in_parallel N T env = Some (Inr c)"
      using main_exit by blast
    from a have "CHR ''\<newline>'' \<notin> set (fmt_f env (elapsed_usec (start_tv env) (stop_tv env)))" ..
    from main_lines [OF c this]
    show "length (lines_of (stdout_of (events (main N T env)))) = 3" by simp
  qed
qed

theorem first_line_is_sizeof_short_witness:
  "outcome (main 10 3 demo_env) = Exit 0 \<and>
   fmt_f demo_env (elapsed_usec (start_tv demo_env) (stop_tv demo_env)) = ''1.002000'' \<and>
   show_nat (sizeof_short demo_env) = ''2'' \<and>
   length (lines_of (stdout_of (events (main 10 3 demo_env)))) = 3"
proof -
  have o: "outcome (main 10 3 demo_env) = Exit 0"
    by (simp add: main_of_count [OF demo_count])
  have nl: "CHR ''\<newline>'' \<notin>
      set (fmt_f demo_env (elapsed_usec (start_tv demo_env) (stop_tv demo_env)))"
    unfolding demo_elapsed by simp
  have "outcome (main 10 3 demo_env) = Exit 0 \<and>
    CHR ''\<newline>'' \<notin> set (fmt_f demo_env (elapsed_usec (start_tv demo_env) (stop_tv demo_env))) \<longrightarrow>
      length (lines_of (stdout_of (events (main 10 3 demo_env)))) = 3"
    by (rule first_line_is_sizeof_short [where N = 10 and T = 3 and env = demo_env,
        THEN conjunct2, THEN conjunct2])
  with o nl have "length (lines_of (stdout_of (events (main 10 3 demo_env)))) = 3"
    by blast
  moreover have "show_nat (sizeof_short demo_env) = ''2''"
    by (simp add: demo_env_def show_examples)
  ultimately show ?thesis using o demo_elapsed by simp
qed

text \<open>
  Claim C4, as amended.  The claim says two lines; the program writes three.  On a run
  that ends normally, with every worker started, the exit status is 0 and standard
  output consists of exactly three lines: the value of \<^verbatim>\<open>sizeof(short)\<close>, then
  \<open><count> primes found\<close> with the count of the primes of \<open>[0, N)\<close>, then
  \<open>took <seconds> sec\<close> with the rendering of the elapsed time by \<^verbatim>\<open>%f\<close>.  Such runs
  exist: for positive \<open>N\<close> and \<open>T\<close> with \<open>N + T \<le> 2^31\<close> every schedule with enough quanta
  gives one.
\<close>

theorem stdout_of_normal_run:
  assumes "0 < T" and "N \<le> INT_MAX" and "\<forall>k < nat T. created env k"
  shows "(outcome (main N T env) = Exit st \<longrightarrow>
            st = 0 \<and>
            stdout_of (events (main N T env)) =
              show_nat (sizeof_short env) @ ''\<newline>'' @
              (show_int (naive_scan N) @ '' primes found'') @ ''\<newline>'' @
              (''took '' @ fmt_f env (elapsed_usec (start_tv env) (stop_tv env)) @ '' sec'') @
              ''\<newline>'' \<and>
            (CHR ''\<newline>'' \<notin> set (fmt_f env (elapsed_usec (start_tv env) (stop_tv env))) \<longrightarrow>
             lines_of (stdout_of (events (main N T env))) =
               [show_nat (sizeof_short env),
                show_int (naive_scan N) @ '' primes found'',
                ''took '' @ fmt_f env (elapsed_usec (start_tv env) (stop_tv env)) @ '' sec''])) \<and>
         (0 < N \<and> N + T \<le> INT_MAX + 1 \<and> enough_quanta N T (schedule env) \<longrightarrow>
            outcome (main N T env) = Exit 0)"
proof
  show "outcome (main N T env) = Exit st \<longrightarrow>
            st = 0 \<and>
            stdout_of (events (main N T env)) =
              show_nat (sizeof_short env) @ ''\<newline>'' @
              (show_int (naive_scan N) @ '' primes found'') @ ''\<newline>'' @
              (''took '' @ fmt_f env (elapsed_usec (start_tv env) (stop_tv env)) @ '' sec'') @
              ''\<newline>'' \<and>
            (CHR ''\<newline>'' \<notin> set (fmt_f env (elapsed_usec (start_tv env) (stop_tv env))) \<longrightarrow>
             lines_of (stdout_of (events (main N T env))) =
               [show_nat (sizeof_short env),
                show_int (naive_scan N) @ '' primes found'',
                ''took '' @ fmt_f env (elapsed_usec (start_tv env) (stop_tv env)) @ '' sec''])"
  proof
    assume ex: "outcome (main N T env) = Exit st"
    from main_exit [OF ex] obtain c where st: "st = 0"
      and c: "count_in_parallel N T env = Some (Inr c)"
      by blast
    from count_in_parallel_Inr [OF assms(1,2) c] count_started_all_created [OF assms(1,3)]
    have "c = naive_scan N" by simp
    with c have n: "count_in_parallel N T env = Some (Inr (naive_scan N))" by simp
    from st main_stdout [OF n] main_lines [OF n]
    show "st = 0 \<and>
            stdout_of (events (main N T env)) =
              show_nat (sizeof_short env) @ ''\<newline>'' @
              (show_int (naive_scan N) @ '' primes found'') @ ''\<newline>'' @
              (''took '' @ fmt_f env (elapsed_usec (start_tv env) (stop_tv env)) @ '' sec'') @
              ''\<newline>'' \<and>
            (CHR ''\<newline>'' \<notin> set (fmt_f env (elapsed_usec (start_tv env) (stop_tv env))) \<longrightarrow>
             lines_of (stdout_of (events (main N T env))) =
               [show_nat (sizeof_short env),
                show_int (naive_scan N) @ '' primes found'',
                ''took '' @ fmt_f env (elapsed_usec (start_tv env) (stop_tv env)) @ '' sec''])"
      by blast
  qed
  show "0 < N \<and> N + T \<le> INT_MAX + 1 \<and> enough_quanta N T (schedule env) \<longrightarrow>
      outcome (main N T env) = Exit 0"
  proof
    assume a: "0 < N \<and> N + T \<le> INT_MAX + 1 \<and> enough_quanta N T (schedule env)"
    from assms(3) have "(\<forall>k < nat T. created env k) \<or> join_invalid_returns env" ..
    with a assms(1)
    have "count_in_parallel N T env = Some (Inr (count_started N T (created env)))"
      by (intro count_in_parallel_enough) simp_all
    then show "outcome (main N T env) = Exit 0"
      by (simp add: main_of_count)
  qed
qed

theorem stdout_of_normal_run_witness:
  "(0::int) < 3 \<and> (10::int) \<le> INT_MAX \<and>
   created demo_env 0 \<and> created demo_env 1 \<and> created demo_env 2 \<and>
   outcome (main 10 3 demo_env) = Exit 0 \<and>
   stdout_of (events (main 10 3 demo_env)) =
     show_nat (sizeof_short demo_env) @ ''\<newline>'' @
     (show_int (naive_scan 10) @ '' primes found'') @ ''\<newline>'' @
     (''took '' @ fmt_f demo_env (elapsed_usec (start_tv demo_env) (stop_tv demo_env)) @ '' sec'') @
     ''\<newline>''"
proof -
  have t: "(0::int) < 3" and r: "(10::int) \<le> INT_MAX" by (simp_all add: INT_MAX_def)
  have c: "\<forall>k < nat 3. created demo_env k"
    by (simp add: demo_env_def all_created_def)
  have o: "outcome (main 10 3 demo_env) = Exit 0"
    by (simp add: main_of_count [OF demo_count])
  from stdout_of_normal_run [where N = 10 and T = 3 and env = demo_env and st = 0, OF t r c] o
  have "stdout_of (events (main 10 3 demo_env)) =
     show_nat (sizeof_short demo_env) @ ''\<newline>'' @
     (show_int (naive_scan 10) @ '' primes found'') @ ''\<newline>'' @
     (''took '' @ fmt_f demo_env (elapsed_usec (start_tv demo_env) (stop_tv demo_env)) @ '' sec'') @
     ''\<newline>''"
    by blast
  moreover from c have "created demo_env 0 \<and> created demo_env 1 \<and> created demo_env 2"
    by simp
  ultimately show ?thesis using t r o by blast
qed

text \<open>
  The claim as it is written fails on the run of the example: it ends normally and
  its standard output has three lines, not two.
\<close>

theorem stdout_has_three_lines:
  "outcome (main 10 3 demo_env) = Exit 0 \<and>
   lines_of (stdout_of (events (main 10 3 demo_env))) =
     [''2'', ''4 primes found'', ''took 1.002000 sec'']"
  using demo_lines by (simp add: main_of_count [OF demo_count])

subsection \<open>A worker that cannot be started\<close>

text \<open>
  Claim C5, as amended.  The claim says that a worker that fails to start aborts the
  run with no count reported; the program never looks at what \<^verbatim>\<open>pthread_create\<close>
  returns.  For positive \<open>N\<close> and \<open>T\<close> with \<open>N + T \<le> 2^31\<close> and a schedule with enough quanta:
  when \<^verbatim>\<open>pthread_join\<close> returns on the handles that were never set, the run ends with
  exit status 0 whichever workers failed to start, and the count it prints is the sum
  of the counters of the workers that did start, the number of primes in their
  partitions; when it does not, the run of a program with a worker that failed to
  start is undefined at that join, after the first line has been written.
\<close>

theorem creation_failure_is_not_fatal:
  assumes "0 < N" and "0 < T" and "N + T \<le> INT_MAX + 1"
    and "enough_quanta N T (schedule env)"
  shows "(join_invalid_returns env \<longrightarrow>
            outcome (main N T env) = Exit 0 \<and>
            count_in_parallel N T env = Some (Inr (count_started N T (created env))) \<and>
            stdout_of (events (main N T env)) =
              show_nat (sizeof_short env) @ ''\<newline>'' @
              (show_int (count_started N T (created env)) @ '' primes found'') @ ''\<newline>'' @
              (''took '' @ fmt_f env (elapsed_usec (start_tv env) (stop_tv env)) @ '' sec'') @
              ''\<newline>'') \<and>
         (\<not> join_invalid_returns env \<and> (\<exists>k < nat T. \<not> created env k) \<longrightarrow>
            outcome (main N T env) = Undefined_behaviour InvalidThread \<and>
            stdout_of (events (main N T env)) = show_nat (sizeof_short env) @ ''\<newline>'')"
proof
  show "join_invalid_returns env \<longrightarrow>
            outcome (main N T env) = Exit 0 \<and>
            count_in_parallel N T env = Some (Inr (count_started N T (created env))) \<and>
            stdout_of (events (main N T env)) =
              show_nat (sizeof_short env) @ ''\<newline>'' @
              (show_int (count_started N T (created env)) @ '' primes found'') @ ''\<newline>'' @
              (''took '' @ fmt_f env (elapsed_usec (start_tv env) (stop_tv env)) @ '' sec'') @
              ''\<newline>''"
  proof
    assume "join_invalid_returns env"
    then have "(\<forall>k < nat T. created env k) \<or> join_invalid_returns env" ..
    from count_in_parallel_enough [OF assms(1-3) this assms(4)]
    have c: "count_in_parallel N T env = Some (Inr (count_started N T (created env)))" .
    from c main_stdout [OF c] main_of_count [OF c]
    show "outcome (main N T env) = Exit 0 \<and>
            count_in_parallel N T env = Some (Inr (count_started N T (created env))) \<and>
            stdout_of (events (main N T env)) =
              show_nat (sizeof_short env) @ ''\<newline>'' @
              (show_int (count_started N T (created env)) @ '' primes found'') @ ''\<newline>'' @
              (''took '' @ fmt_f env (elapsed_usec (start_tv env) (stop_tv env)) @ '' sec'') @
              ''\<newline>''"
      by simp
  qed
  show "\<not> join_invalid_returns env \<and> (\<exists>k < nat T. \<not> created env k) \<longrightarrow>
            outcome (main N T env) = Undefined_behaviour InvalidThread \<and>
            stdout_of (events (main N T env)) = show_nat (sizeof_short env) @ ''\<newline>''"
  proof
    assume a: "\<not> join_invalid_returns env \<and> (\<exists>k < nat T. \<not> created env k)"
    let ?w = "run_schedule N T (schedule env) (initial_world T (created env))"
    from assms(2,3) have NI: "N \<le> INT_MAX" by simp
    have inv: "world_inv N T (created env) ?w"
      using initial_world_inv assms(2) NI by (rule run_schedule_inv)
    from a obtain k where k: "k < nat T" "\<not> created env k" by blast
    with world_counter [OF inv k(1)] have "t_array ?w ! k = None" by simp
    moreover from inv k(1) have "k < length (t_array ?w)" by (simp add: world_inv_def)
    ultimately have none: "None \<in> set (t_array ?w)" by (metis nth_mem)
    have noub: "\<forall>t e. Some t \<in> set (t_array ?w) \<longrightarrow> status t \<noteq> UB e"
      using inv assms(3,1,2) by (rule world_no_UB)
    have norun: "\<forall>t. Some t \<in> set (t_array ?w) \<longrightarrow> status t \<noteq> Running"
      using assms(2,4) by (rule all_quanta_used)
    have ret: "\<forall>t. Some t \<in> set (t_array ?w) \<longrightarrow> status t = Returned"
    proof (intro allI impI)
      fix t assume "Some t \<in> set (t_array ?w)"
      with noub norun have "status t \<noteq> Running" "\<forall>e. status t \<noteq> UB e" by blast+
      then show "status t = Returned" by (cases "status t") simp_all
    qed
    from a have "\<not> join_invalid_returns env" ..
    from join_loop_invalid [OF this none ret]
    have c: "count_in_parallel N T env = Some (Inl InvalidThread)"
      by (simp add: count_in_parallel_def)
    then have o: "outcome (main N T env) = Undefined_behaviour InvalidThread"
      by (simp add: main_def)
    then have "outcome (main N T env) \<noteq> Exit 0" by simp
    from o main_stdout_short [OF this]
    show "outcome (main N T env) = Undefined_behaviour InvalidThread \<and>
            stdout_of (events (main N T env)) = show_nat (sizeof_short env) @ ''\<newline>''"
      by simp
  qed
qed

theorem creation_failure_is_not_fatal_witness:
  "(0::int) < 10 \<and> (0::int) < 3 \<and> (10::int) + 3 \<le> INT_MAX + 1 \<and>
   enough_quanta 10 3 (schedule demo_env_failure) \<and> join_invalid_returns demo_env_failure \<and>
   \<not> created demo_env_failure 2 \<and>
   outcome (main 10 3 demo_env_failure) = Exit 0 \<and>
   count_in_parallel 10 3 demo_env_failure =
     Some (Inr (count_started 10 3 (created demo_env_failure))) \<and>
   count_started 10 3 (created demo_env_failure) = 2"
proof -
  have n: "(0::int) < 10" and t: "(0::int) < 3" and r: "(10::int) + 3 \<le> INT_MAX + 1"
    by (simp_all add: INT_MAX_def)
  have j: "join_invalid_returns demo_env_failure" "\<not> created demo_env_failure 2"
    by (simp_all add: demo_env_failure_def not_slot_2_def)
  from creation_failure_is_not_fatal
    [where N = 10 and T = 3 and env = demo_env_failure, OF n t r demo_enough(2)] j(1)
  have c: "outcome (main 10 3 demo_env_failure) = Exit 0"
    "count_in_parallel 10 3 demo_env_failure =
       Some (Inr (count_started 10 3 (created demo_env_failure)))"
    by blast+
  with demo_failure_count have "count_started 10 3 (created demo_env_failure) = 2"
    by simp
  with n t r j c demo_enough(2) show ?thesis by blast
qed

text \<open>
  The claim as it is written fails on the run of the example in which the worker of
  slot 2 is not started: the run ends with exit status 0 and prints the count 2 of
  the two workers that did start, where \<open>[0, 10)\<close> has 4 primes.
\<close>

theorem creation_failure_reports_partial_count:
  "\<not> created demo_env_failure 2 \<and>
   outcome (main 10 3 demo_env_failure) = Exit 0 \<and>
   lines_of (stdout_of (events (main 10 3 demo_env_failure))) =
     [''2'', ''2 primes found'', ''took 1.002000 sec''] \<and>
   naive_scan 10 = 4"
proof -
  have "naive_scan 10 = 4" by code_simp
  moreover have "\<not> created demo_env_failure 2"
    by (simp add: demo_env_failure_def not_slot_2_def)
  ultimately show ?thesis
    using demo_failure_lines by (simp add: main_of_count [OF demo_failure_count])
qed

end
